theory Spec2Isabelle
  imports
    Main
    "HOL-Library.Multiset"
    "HOL-Library.Sublist"
    "HOL-Library.Char_ord"
    "HOL-Library.List_Lexorder"
    "HOL-Library.Product_Lexorder"
begin

section \<open>The gift exchange generator (generate.py)\<close>

text \<open>
  A person is the tuple \<open>(name, groupIndex)\<close> the source builds, a pairing is the tuple
  \<open>(giver, getter)\<close>. Python's unbounded integers are \<open>int\<close>. A Python \<open>str\<close> is a
  \<open>string\<close>, a list of characters with the code points 0 to 255 (ASCII and Latin-1), and
  \<open>lower\<close> and \<open>strip\<close> do on each of them what Python's \<open>str.lower\<close> and
  \<open>str.isspace\<close> do on that code point. Names with a code point above 255 are outside the
  model.
\<close>

type_synonym person = "string \<times> int"
type_synonym pairing = "person \<times> person"

datatype py_error = IndexError | ValueError

subsection \<open>The string methods the source calls\<close>

text \<open>\<open>str.lower\<close> on one character: the capitals \<open>A\<close> to \<open>Z\<close> (65 to 90) and the
  Latin-1 capitals 192 to 222, but for the multiplication sign 215, go 32 code points up;
  every other character below 256 is its own lowercase.\<close>

definition lower_char :: "char \<Rightarrow> char" where
  "lower_char c =
     (let n = (of_char c :: nat) in
      if (65 \<le> n \<and> n \<le> 90) \<or> (192 \<le> n \<and> n \<le> 222 \<and> n \<noteq> 215) then char_of (n + 32) else c)"

definition py_lower :: "string \<Rightarrow> string" where
  "py_lower s = map lower_char s"

text \<open>\<open>str.isspace\<close> on one character, which is what \<open>strip\<close> removes: tab, line feed,
  vertical tab, form feed, carriage return (9 to 13), the four separators 28 to 31, the
  space 32, the next-line control 133 and the no-break space 160.\<close>

definition is_space :: "char \<Rightarrow> bool" where
  "is_space c =
     (let n = (of_char c :: nat) in (9 \<le> n \<and> n \<le> 13) \<or> (28 \<le> n \<and> n \<le> 32) \<or> n = 133 \<or> n = 160)"

definition py_strip :: "string \<Rightarrow> string" where
  "py_strip s = rev (dropWhile is_space (rev (dropWhile is_space s)))"

definition dquote :: char where
  "dquote = CHR 0x22"

text \<open>\<open>s.replace('"', '')\<close>: every double quote is deleted.\<close>

definition remove_quotes :: "string \<Rightarrow> string" where
  "remove_quotes s = filter (\<lambda>c. c \<noteq> dquote) s"

text \<open>\<open>sep.join(xs)\<close>.\<close>

fun py_join :: "string \<Rightarrow> string list \<Rightarrow> string" where
  "py_join sep [] = []"
| "py_join sep [x] = x"
| "py_join sep (x # y # ys) = x @ sep @ py_join sep (y # ys)"

text \<open>\<open>s.split(sep)\<close>: the text is cut at each occurrence of \<open>sep\<close>, found from the
  left and not overlapping; \<open>cur\<close> holds the current piece, reversed. An empty separator
  raises \<open>ValueError\<close>.\<close>

function split_from :: "string \<Rightarrow> string \<Rightarrow> string \<Rightarrow> string list" where
  "split_from sep cur [] = [rev cur]"
| "split_from sep cur (c # cs) =
     (if sep \<noteq> [] \<and> prefix sep (c # cs)
      then rev cur # split_from sep [] (drop (length sep) (c # cs))
      else split_from sep (c # cur) cs)"
  by pat_completeness auto
termination
  by (relation "measure (\<lambda>(sep, cur, s). length s)") (auto simp: neq_Nil_conv)

definition py_split :: "string \<Rightarrow> string \<Rightarrow> py_error + string list" where
  "py_split sep s = (if sep = [] then Inl ValueError else Inr (split_from sep [] s))"

text \<open>The conversion \<open>%d\<close> of the \<open>%\<close> operator: decimal digits, a minus sign first for a
  negative number.\<close>

definition digit_char :: "nat \<Rightarrow> char" where
  "digit_char d = char_of (48 + d)"

fun string_of_nat :: "nat \<Rightarrow> string" where
  "string_of_nat n =
     (if n < 10 then [digit_char n] else string_of_nat (n div 10) @ [digit_char (n mod 10)])"

declare string_of_nat.simps [simp del]

definition string_of_int :: "int \<Rightarrow> string" where
  "string_of_int i = (if i < 0 then CHR ''-'' # string_of_nat (nat (- i)) else string_of_nat (nat i))"

subsection \<open>PairingToString\<close>

text \<open>\<open>'%d%s-%d%s' % (giverGroup, giverName, getterGroup, getterName)\<close>, after each name
  went through \<open>.lower().strip().replace('"', '')\<close> in this order.\<close>

fun PairingToString :: "pairing \<Rightarrow> string" where
  "PairingToString ((giverName, giverGroup), (getterName, getterGroup)) =
     (let giverName' = remove_quotes (py_strip (py_lower giverName));
          getterName' = remove_quotes (py_strip (py_lower getterName))
      in string_of_int giverGroup @ giverName' @ ''-'' @ string_of_int getterGroup @ getterName')"

subsection \<open>AttemptToGenPairings\<close>

text \<open>The two nested loops that fill \<open>givers\<close> and \<open>getters\<close>: both lists get the same
  persons in the same order, so one list is built and used for both.\<close>

fun people_from :: "nat \<Rightarrow> string list list \<Rightarrow> person list" where
  "people_from i [] = []"
| "people_from i (names # rest) = map (\<lambda>name. (name, int i)) names @ people_from (Suc i) rest"

definition build_people :: "string list list \<Rightarrow> person list" where
  "build_people groups = people_from 0 groups"

text \<open>\<open>random.choice(xs)\<close> with the random number \<open>r\<close> it draws: \<open>IndexError\<close> on an
  empty list, else the element at \<open>r mod len(xs)\<close>, so every element can be chosen.\<close>

definition RC :: "'a list \<Rightarrow> nat \<Rightarrow> py_error + 'a" where
  "RC xs r = (if xs = [] then Inl IndexError else Inr (xs ! (r mod length xs)))"

text \<open>\<open>xs.remove(x)\<close>: the first occurrence goes, \<open>ValueError\<close> when there is none.\<close>

definition py_remove :: "'a \<Rightarrow> 'a list \<Rightarrow> py_error + 'a list" where
  "py_remove x xs = (if x \<in> set xs then Inr (remove1 x xs) else Inl ValueError)"

text \<open>How the \<open>while givers\<close> loop is left: by \<open>return None\<close> when the attempts are used
  up, or by its condition turning false, with the variables as they are then.\<close>

datatype loop_exit = GaveUp | Finished "person list" "pairing set" int

text \<open>The loop. The random source is \<open>rnd\<close>, a sequence of numbers read at position
  \<open>k\<close>; the position after the last draw is returned with the result.\<close>

function assign_loop ::
  "string list \<Rightarrow> int \<Rightarrow> (nat \<Rightarrow> nat) \<Rightarrow> person list \<Rightarrow> person list \<Rightarrow> pairing set \<Rightarrow> int \<Rightarrow> nat
     \<Rightarrow> (py_error + loop_exit) \<times> nat" where
  "assign_loop lastRun maxAttempts rnd givers getters pairings attempts k =
     (if givers = [] then (Inr (Finished getters pairings attempts), k)
      else if attempts > maxAttempts then (Inr GaveUp, k)
      else case RC givers (rnd k) of
        Inl e \<Rightarrow> (Inl e, k + 1)
      | Inr giver \<Rightarrow>
         (case RC getters (rnd (k + 1)) of
            Inl e \<Rightarrow> (Inl e, k + 2)
          | Inr getter \<Rightarrow>
             if giver = getter
             then assign_loop lastRun maxAttempts rnd givers getters pairings (attempts + 1) (k + 2)
             else if snd giver = snd getter
             then assign_loop lastRun maxAttempts rnd givers getters pairings (attempts + 1) (k + 2)
             else if PairingToString (giver, getter) \<in> set lastRun
             then assign_loop lastRun maxAttempts rnd givers getters pairings (attempts + 1) (k + 2)
             else if (giver, getter) \<in> pairings \<or> (getter, giver) \<in> pairings
             then assign_loop lastRun maxAttempts rnd givers getters pairings (attempts + 1) (k + 2)
             else (case py_remove giver givers of
                     Inl e \<Rightarrow> (Inl e, k + 2)
                   | Inr givers' \<Rightarrow>
                      (case py_remove getter getters of
                         Inl e \<Rightarrow> (Inl e, k + 2)
                       | Inr getters' \<Rightarrow>
                           assign_loop lastRun maxAttempts rnd givers' getters'
                             (insert (giver, getter) pairings) attempts (k + 2)))))"
  by pat_completeness auto
termination
proof (relation "measure (\<lambda>(lastRun, maxAttempts, rnd, givers, getters, pairings, attempts, k).
          nat (maxAttempts + 1 - attempts) + length givers)", goal_cases)
  case 1
  show ?case by simp
next
  case 6
  then show ?case
    by (auto simp: py_remove_def length_remove1 split: if_splits)
qed auto

declare assign_loop.simps [simp del]

text \<open>The function: the pools, the loop, and the check for leftover getters. The result is
  \<open>None\<close> or the set of pairings; the messages printed are not modelled.\<close>

definition AttemptToGenPairings ::
  "string list list \<Rightarrow> string list \<Rightarrow> int \<Rightarrow> (nat \<Rightarrow> nat) \<Rightarrow> nat
     \<Rightarrow> (py_error + pairing set option) \<times> nat" where
  "AttemptToGenPairings groups lastRun maxAttempts rnd k =
     (let givers = build_people groups; getters = build_people groups in
      case assign_loop lastRun maxAttempts rnd givers getters {} 0 k of
        (Inl e, k') \<Rightarrow> (Inl e, k')
      | (Inr GaveUp, k') \<Rightarrow> (Inr None, k')
      | (Inr (Finished getters' pairings attempts), k') \<Rightarrow>
          if getters' \<noteq> [] then (Inr None, k') else (Inr (Some pairings), k'))"

subsection \<open>GenPairings\<close>

text \<open>\<open>while 1\<close>: an attempt after the other, each reading the random source where the
  one before stopped, until one returns a set. The loop has no bound, so the function is
  partial: \<open>None\<close> is the run that never returns. An exception raised in an attempt ends
  the run (\<open>Inl\<close>). The default \<open>maxAttempts\<close> of the attempt is 1000.\<close>

partial_function (option) GenPairings_loop ::
  "string list list \<Rightarrow> string list \<Rightarrow> (nat \<Rightarrow> nat) \<Rightarrow> int \<Rightarrow> nat \<Rightarrow> (py_error + pairing set) option" where
  "GenPairings_loop groups lastRun rnd tries k =
     (let tries' = tries + 1 in
      case AttemptToGenPairings groups lastRun 1000 rnd k of
        (Inl e, k') \<Rightarrow> Some (Inl e)
      | (Inr (Some pairings), k') \<Rightarrow> Some (Inr pairings)
      | (Inr None, k') \<Rightarrow> GenPairings_loop groups lastRun rnd tries' k')"

declare GenPairings_loop.simps [code]

definition GenPairings ::
  "string list list \<Rightarrow> string list \<Rightarrow> (nat \<Rightarrow> nat) \<Rightarrow> (py_error + pairing set) option" where
  "GenPairings groups lastRun rnd = GenPairings_loop groups lastRun rnd 0 0"

subsection \<open>HaveDuplicateNames\<close>

text \<open>The inner loop over one group's names: \<open>True\<close> as soon as a name, lowercased and
  stripped, is already known; else the known names after the group.\<close>

fun dup_in_names :: "string set \<Rightarrow> string list \<Rightarrow> bool \<times> string set" where
  "dup_in_names knownNames [] = (False, knownNames)"
| "dup_in_names knownNames (name # names) =
     (let name' = py_strip (py_lower name) in
      if name' \<in> knownNames then (True, knownNames)
      else dup_in_names (insert name' knownNames) names)"

fun dup_in_groups :: "string set \<Rightarrow> string list list \<Rightarrow> bool" where
  "dup_in_groups knownNames [] = False"
| "dup_in_groups knownNames (groupNames # groups) =
     (case dup_in_names knownNames groupNames of
        (True, _) \<Rightarrow> True
      | (False, knownNames') \<Rightarrow> dup_in_groups knownNames' groups)"

definition HaveDuplicateNames :: "string list list \<Rightarrow> bool" where
  "HaveDuplicateNames groups = dup_in_groups {} groups"

subsection \<open>FormatPairings\<close>

text \<open>One pass of the loop body: the pairing's key goes to \<open>lastRuns\<close>, its line to
  \<open>printLines\<close>.\<close>

fun format_step :: "bool \<Rightarrow> pairing \<Rightarrow> string list \<times> string list \<Rightarrow> string list \<times> string list" where
  "format_step showGroups ((giverName, giverGroup), (getterName, getterGroup)) (printLines, lastRuns) =
     (let lastRuns' = lastRuns @ [PairingToString ((giverName, giverGroup), (getterName, getterGroup))] in
      if showGroups
      then (printLines @ [giverName @ '' ('' @ string_of_int giverGroup @ '') gives to '' @
                          getterName @ '' ('' @ string_of_int getterGroup @ '')''], lastRuns')
      else (printLines @ [giverName @ '' gives to '' @ getterName], lastRuns'))"

text \<open>The function reads the module's global \<open>groups\<close>; here it is a parameter.
  \<open>sorted(pairings)\<close> is the set's elements in the order of Python's tuples and
  strings, which is the lexicographic order of the pairs and lists here.\<close>

definition FormatPairings :: "string list list \<Rightarrow> pairing set \<Rightarrow> string \<times> string" where
  "FormatPairings groups pairings =
     (let showGroups = HaveDuplicateNames groups;
          (printLines, lastRuns) = fold (format_step showGroups) (sorted_list_of_set pairings) ([], [])
      in (py_join [CHR 0x0A] printLines, py_join ''::'' lastRuns))"

subsection \<open>LoadGroups\<close>

text \<open>The configuration after \<open>json.loads\<close>: the groups, and the key \<open>lastRun\<close> when
  the file has it. Reading and parsing the file are not modelled.\<close>

record cfg =
  cfg_groups :: "string list list"
  cfg_lastRun :: "string option"

definition LoadGroups :: "cfg \<Rightarrow> py_error + (string list list \<times> string list)" where
  "LoadGroups c =
     (let groups = cfg_groups c;
          lastRun = py_strip (case cfg_lastRun c of None \<Rightarrow> [] | Some s \<Rightarrow> s)
      in if lastRun = [] then Inr (groups, [])
         else case py_split ''::'' lastRun of
                Inl e \<Rightarrow> Inl e
              | Inr parts \<Rightarrow> Inr (groups, parts))"

section \<open>What the specification says of a result\<close>

text \<open>In how many pairings of a set a person is the giver, and the getter.\<close>

definition giver_count :: "pairing set \<Rightarrow> person \<Rightarrow> nat" where
  "giver_count P p = card (Set.filter (\<lambda>q. fst q = p) P)"

definition getter_count :: "pairing set \<Rightarrow> person \<Rightarrow> nat" where
  "getter_count P p = card (Set.filter (\<lambda>q. snd q = p) P)"

text \<open>The rules a pairing obeys: nobody gives to themself, giver and getter are of different
  groups, the pairing's key is not one of the last run, and the reverse pairing is not in
  the set too.\<close>

definition pairing_ok :: "string list \<Rightarrow> pairing set \<Rightarrow> pairing \<Rightarrow> bool" where
  "pairing_ok lastRun P q =
     (fst q \<noteq> snd q \<and> snd (fst q) \<noteq> snd (snd q) \<and>
      PairingToString q \<notin> set lastRun \<and> (snd q, fst q) \<notin> P)"

text \<open>A set covers the people of \<open>groups\<close>: it has as many pairings as there are people,
  and a person gives, and gets, as often as the person occurs among the people. A person
  whose name is written once in its group occurs once.\<close>

definition covers_people :: "string list list \<Rightarrow> pairing set \<Rightarrow> bool" where
  "covers_people groups P =
     (finite P \<and> card P = length (build_people groups) \<and>
      (\<forall>p. giver_count P p = count_list (build_people groups) p) \<and>
      (\<forall>p. getter_count P p = count_list (build_people groups) p))"

text \<open>The six invariants of a MatchSet.\<close>

definition valid_matchset :: "string list list \<Rightarrow> string list \<Rightarrow> pairing set \<Rightarrow> bool" where
  "valid_matchset groups lastRun M = (covers_people groups M \<and> (\<forall>q \<in> M. pairing_ok lastRun M q))"

text \<open>\<open>core\<close> is \<open>name\<close> without its leading and trailing whitespace.\<close>

definition no_outer_space :: "string \<Rightarrow> bool" where
  "no_outer_space s = (s = [] \<or> (\<not> is_space (hd s) \<and> \<not> is_space (last s)))"

definition trimmed_of :: "string \<Rightarrow> string \<Rightarrow> bool" where
  "trimmed_of name core =
     (\<exists>l r. name = l @ core @ r \<and> list_all is_space l \<and> list_all is_space r \<and> no_outer_space core)"

text \<open>The line of the listing for a pairing, as the specification words it: "name gives to
  name", or "name (group) gives to name (group)" when the groups are shown.\<close>

definition pairing_line :: "bool \<Rightarrow> pairing \<Rightarrow> string" where
  "pairing_line showGroups q =
     (if showGroups
      then fst (fst q) @ '' ('' @ string_of_int (snd (fst q)) @ '') gives to '' @
           fst (snd q) @ '' ('' @ string_of_int (snd (snd q)) @ '')''
      else fst (fst q) @ '' gives to '' @ fst (snd q))"

text \<open>The keys that survive being joined with \<open>::\<close>, stripped and split again: none
  holds the delimiter, none but the last ends in a colon (which would merge with the
  delimiter after it), and the last does not end in whitespace (which \<open>strip\<close> would
  remove).\<close>

definition keys_round_trip :: "string list \<Rightarrow> bool" where
  "keys_round_trip keys =
     ((\<forall>key \<in> set keys. \<not> sublist ''::'' key) \<and>
      (\<forall>key \<in> set (butlast keys). \<not> suffix '':'' key) \<and>
      (keys \<noteq> [] \<longrightarrow> \<not> is_space (last (last keys))))"

text \<open>A random source that yields the numbers of a list, then zeros.\<close>

definition draws :: "nat list \<Rightarrow> nat \<Rightarrow> nat" where
  "draws ds n = (if n < length ds then ds ! n else 0)"

section \<open>The state of the assignment loop\<close>

text \<open>The four checks that send the loop back to its head with one more failed attempt.\<close>

definition rejected :: "string list \<Rightarrow> pairing set \<Rightarrow> person \<Rightarrow> person \<Rightarrow> bool" where
  "rejected lastRun pairings giver getter =
     (giver = getter \<or> snd giver = snd getter \<or> PairingToString (giver, getter) \<in> set lastRun \<or>
      (giver, getter) \<in> pairings \<or> (getter, giver) \<in> pairings)"

text \<open>What the loop keeps true of its pools and its set: the people still in a pool and
  the people already paired make up all the people, on the givers' side and on the getters'
  side, and every pairing in the set obeys the rules.\<close>

definition pool_inv :: "person list \<Rightarrow> string list \<Rightarrow> person list \<Rightarrow> person list \<Rightarrow> pairing set \<Rightarrow> bool" where
  "pool_inv people lastRun givers getters P =
     (finite P \<and> mset givers + image_mset fst (mset_set P) = mset people \<and>
      mset getters + image_mset snd (mset_set P) = mset people \<and>
      (\<forall>q \<in> P. pairing_ok lastRun P q))"

text \<open>The position of the first occurrence of \<open>x\<close> in a list, and the random numbers
  that make the loop draw the pairings of a list one after the other.\<close>

fun index_of :: "'a \<Rightarrow> 'a list \<Rightarrow> nat" where
  "index_of x [] = 0"
| "index_of x (y # ys) = (if x = y then 0 else Suc (index_of x ys))"

fun draws_for :: "pairing list \<Rightarrow> person list \<Rightarrow> person list \<Rightarrow> nat list" where
  "draws_for [] givers getters = []"
| "draws_for ((g, r) # ms) givers getters =
     index_of g givers # index_of r getters # draws_for ms (remove1 g givers) (remove1 r getters)"

section \<open>The loop, one pass at a time\<close>

lemma RC_Inr: "RC xs r = Inr x \<Longrightarrow> x \<in> set xs"
  by (auto simp: RC_def split: if_splits)

lemma RC_nonempty: "xs \<noteq> [] \<Longrightarrow> \<exists>x. RC xs r = Inr x"
  by (simp add: RC_def)

lemma py_remove_mem: "x \<in> set xs \<Longrightarrow> py_remove x xs = Inr (remove1 x xs)"
  by (simp add: py_remove_def)

lemma assign_loop_done:
  "assign_loop lastRun maxA rnd [] getters pairings attempts k = (Inr (Finished getters pairings attempts), k)"
  by (simp add: assign_loop.simps)

lemma assign_loop_gave_up:
  "givers \<noteq> [] \<Longrightarrow> maxA < attempts \<Longrightarrow>
   assign_loop lastRun maxA rnd givers getters pairings attempts k = (Inr GaveUp, k)"
  by (simp add: assign_loop.simps)

lemma assign_loop_reject:
  "givers \<noteq> [] \<Longrightarrow> \<not> maxA < attempts \<Longrightarrow> RC givers (rnd k) = Inr giver \<Longrightarrow>
   RC getters (rnd (k + 1)) = Inr getter \<Longrightarrow> rejected lastRun pairings giver getter \<Longrightarrow>
   assign_loop lastRun maxA rnd givers getters pairings attempts k =
   assign_loop lastRun maxA rnd givers getters pairings (attempts + 1) (k + 2)"
  by (subst assign_loop.simps) (auto simp: rejected_def)

lemma assign_loop_accept:
  assumes "givers \<noteq> []" "\<not> maxA < attempts" "RC givers (rnd k) = Inr giver"
    "RC getters (rnd (k + 1)) = Inr getter" "\<not> rejected lastRun pairings giver getter"
  shows "assign_loop lastRun maxA rnd givers getters pairings attempts k =
   assign_loop lastRun maxA rnd (remove1 giver givers) (remove1 getter getters)
     (insert (giver, getter) pairings) attempts (k + 2)"
proof -
  have "giver \<in> set givers" "getter \<in> set getters"
    using assms(3,4) by (auto dest: RC_Inr)
  with assms show ?thesis
    by (subst assign_loop.simps) (simp add: rejected_def py_remove_mem)
qed

lemma assign_loop_getters_empty:
  "givers \<noteq> [] \<Longrightarrow> \<not> maxA < attempts \<Longrightarrow>
   assign_loop lastRun maxA rnd givers [] pairings attempts k = (Inl IndexError, k + 2)"
  by (subst assign_loop.simps) (auto simp: RC_def)

text \<open>The rule of the loop: what holds when it starts and is kept by a rejected and by an
  accepted draw holds when it is left; the loop is always left, and never by an exception,
  when the getters cannot run out before the givers.\<close>

lemma assign_loop_rule:
  assumes inv: "I givers getters pairings attempts"
    and rej: "\<And>givers getters pairings attempts giver getter.
       I givers getters pairings attempts \<Longrightarrow> \<not> maxA < attempts \<Longrightarrow> giver \<in> set givers \<Longrightarrow> getter \<in> set getters \<Longrightarrow>
       rejected lastRun pairings giver getter \<Longrightarrow> I givers getters pairings (attempts + 1)"
    and acc: "\<And>givers getters pairings attempts giver getter.
       I givers getters pairings attempts \<Longrightarrow> \<not> maxA < attempts \<Longrightarrow> giver \<in> set givers \<Longrightarrow> getter \<in> set getters \<Longrightarrow>
       \<not> rejected lastRun pairings giver getter \<Longrightarrow>
       I (remove1 giver givers) (remove1 getter getters) (insert (giver, getter) pairings) attempts"
  shows "(\<exists>k'. assign_loop lastRun maxA rnd givers getters pairings attempts k = (Inr GaveUp, k')) \<or>
         (\<exists>gs P a k'. assign_loop lastRun maxA rnd givers getters pairings attempts k = (Inr (Finished gs P a), k')
             \<and> I [] gs P a) \<or>
         (\<exists>gs P a k'. assign_loop lastRun maxA rnd givers getters pairings attempts k = (Inl IndexError, k')
             \<and> I gs [] P a \<and> gs \<noteq> [])"
  using inv
proof (induction "nat (maxA + 1 - attempts) + length givers" arbitrary: givers getters pairings attempts k rule: less_induct)
  case less
  note inv = less.prems
  show ?case
  proof (cases "givers = [] \<or> maxA < attempts")
    case True
    show ?thesis
    proof (cases "givers = []")
      case True
      with inv show ?thesis by (simp add: assign_loop_done)
    next
      case False
      with \<open>givers = [] \<or> maxA < attempts\<close> show ?thesis by (simp add: assign_loop_gave_up)
    qed
  next
    case False
    then have ne: "givers \<noteq> []" and le: "\<not> maxA < attempts" by auto
    show ?thesis
    proof (cases "getters = []")
      case True
      with ne le inv show ?thesis
        using assign_loop_getters_empty[OF ne le] by blast
    next
      case ne': False
      from ne ne' obtain giver getter where
        g: "RC givers (rnd k) = Inr giver" and r: "RC getters (rnd (k + 1)) = Inr getter"
        using RC_nonempty by blast
      note mem = RC_Inr[OF g] RC_Inr[OF r]
      show ?thesis
      proof (cases "rejected lastRun pairings giver getter")
        case True
        have "I givers getters pairings (attempts + 1)"
          using rej[OF inv le mem True] .
        moreover have "nat (maxA + 1 - (attempts + 1)) + length givers < nat (maxA + 1 - attempts) + length givers"
          using le by simp
        ultimately show ?thesis
          using less.hyps[of "attempts + 1" givers getters pairings "k + 2"]
          by (simp add: assign_loop_reject[OF ne le g r True])
      next
        case False
        have "I (remove1 giver givers) (remove1 getter getters) (insert (giver, getter) pairings) attempts"
          using acc[OF inv le mem False] .
        moreover have "nat (maxA + 1 - attempts) + length (remove1 giver givers) < nat (maxA + 1 - attempts) + length givers"
          using mem(1) ne by (simp add: length_remove1)
        ultimately show ?thesis
          using less.hyps[of attempts "remove1 giver givers" "remove1 getter getters" "insert (giver, getter) pairings" "k + 2"]
          by (simp add: assign_loop_accept[OF ne le g r False])
      qed
    qed
  qed
qed

section \<open>The pools stay in step\<close>

lemma count_image_mset_set:
  "finite A \<Longrightarrow> count (image_mset f (mset_set A)) x = card (Set.filter (\<lambda>a. f a = x) A)"
proof (induction A rule: finite_induct)
  case empty
  show ?case by simp
next
  case (insert a A)
  have "Set.filter (\<lambda>a. f a = x) (insert a A) =
        (if f a = x then insert a (Set.filter (\<lambda>a. f a = x) A) else Set.filter (\<lambda>a. f a = x) A)"
    by auto
  with insert show ?case by simp
qed

lemma pool_inv_init: "pool_inv people lastRun people people {}"
  by (simp add: pool_inv_def)

lemma pool_inv_lock:
  assumes "pool_inv people lastRun givers getters P"
  shows "length givers = length getters"
proof -
  from assms have "size (mset givers + image_mset fst (mset_set P)) = size (mset getters + image_mset snd (mset_set P))"
    by (simp add: pool_inv_def)
  then show ?thesis by simp
qed

lemma pool_inv_accept:
  assumes inv: "pool_inv people lastRun givers getters P"
    and mem: "giver \<in> set givers" "getter \<in> set getters"
    and ok: "\<not> rejected lastRun P giver getter"
  shows "pool_inv people lastRun (remove1 giver givers) (remove1 getter getters) (insert (giver, getter) P)"
proof -
  from inv have fin: "finite P" by (simp add: pool_inv_def)
  from ok have new: "(giver, getter) \<notin> P" "(getter, giver) \<notin> P" "giver \<noteq> getter"
    by (auto simp: rejected_def)
  have ms: "mset_set (insert (giver, getter) P) = add_mset (giver, getter) (mset_set P)"
    using fin new(1) by simp
  have putback: "mset (remove1 x xs) + {#x#} = mset xs" if "x \<in> set xs" for x :: person and xs
    using that by simp
  have "mset (remove1 giver givers) + image_mset fst (mset_set (insert (giver, getter) P)) =
        (mset (remove1 giver givers) + {#giver#}) + image_mset fst (mset_set P)"
    by (simp add: ms)
  also have "\<dots> = mset people"
    using inv by (simp only: putback[OF mem(1)] pool_inv_def)
  finally have givers': "mset (remove1 giver givers) + image_mset fst (mset_set (insert (giver, getter) P)) = mset people" .
  have "mset (remove1 getter getters) + image_mset snd (mset_set (insert (giver, getter) P)) =
        (mset (remove1 getter getters) + {#getter#}) + image_mset snd (mset_set P)"
    by (simp add: ms)
  also have "\<dots> = mset people"
    using inv by (simp only: putback[OF mem(2)] pool_inv_def)
  finally have getters': "mset (remove1 getter getters) + image_mset snd (mset_set (insert (giver, getter) P)) = mset people" .
  have "\<forall>q \<in> insert (giver, getter) P. pairing_ok lastRun (insert (giver, getter) P) q"
    using inv ok by (auto simp: pool_inv_def pairing_ok_def rejected_def)
  with givers' getters' show ?thesis using fin by (simp add: pool_inv_def)
qed

lemma pool_inv_final:
  assumes "pool_inv (build_people groups) lastRun [] gs P"
  shows "gs = [] \<and> valid_matchset groups lastRun P"
proof -
  let ?people = "build_people groups"
  from assms have fin: "finite P" and g: "image_mset fst (mset_set P) = mset ?people"
    and r: "mset gs + image_mset snd (mset_set P) = mset ?people"
    and ok: "\<forall>q \<in> P. pairing_ok lastRun P q"
    by (simp_all add: pool_inv_def)
  from pool_inv_lock[OF assms] have gs: "gs = []" by simp
  from g have "size (image_mset fst (mset_set P)) = size (mset ?people)" by simp
  then have card: "card P = length ?people" by simp
  have "giver_count P p = count_list ?people p" for p
    using count_image_mset_set[OF fin, of fst p] g by (simp add: giver_count_def count_mset)
  moreover have "getter_count P p = count_list ?people p" for p
    using count_image_mset_set[OF fin, of snd p] r gs by (simp add: getter_count_def count_mset)
  ultimately show ?thesis
    using fin card ok gs by (simp add: valid_matchset_def covers_people_def)
qed

lemma assign_loop_pool:
  assumes "pool_inv people lastRun givers getters P"
  shows "(\<exists>k'. assign_loop lastRun maxA rnd givers getters P attempts k = (Inr GaveUp, k')) \<or>
         (\<exists>gs P' a k'. assign_loop lastRun maxA rnd givers getters P attempts k = (Inr (Finished gs P' a), k')
             \<and> pool_inv people lastRun [] gs P')"
proof -
  have "(\<exists>k'. assign_loop lastRun maxA rnd givers getters P attempts k = (Inr GaveUp, k')) \<or>
         (\<exists>gs P' a k'. assign_loop lastRun maxA rnd givers getters P attempts k = (Inr (Finished gs P' a), k')
             \<and> pool_inv people lastRun [] gs P') \<or>
         (\<exists>gs P' (a :: int) k'. assign_loop lastRun maxA rnd givers getters P attempts k = (Inl IndexError, k')
             \<and> pool_inv people lastRun gs [] P' \<and> gs \<noteq> [])"
    by (rule assign_loop_rule[where I = "\<lambda>givers getters P a. pool_inv people lastRun givers getters P"])
      (auto intro: assms pool_inv_accept)
  moreover have "gs = []" if "pool_inv people lastRun gs [] P'" for gs P'
    using pool_inv_lock[OF that] by simp
  ultimately show ?thesis by blast
qed

lemma AttemptToGenPairings_cases:
  "(\<exists>k'. AttemptToGenPairings groups lastRun maxA rnd k = (Inr None, k')) \<or>
   (\<exists>P k'. AttemptToGenPairings groups lastRun maxA rnd k = (Inr (Some P), k') \<and> valid_matchset groups lastRun P)"
  using assign_loop_pool[OF pool_inv_init[of "build_people groups" lastRun],
      where maxA = maxA and rnd = rnd and attempts = 0 and k = k]
  by (auto simp: AttemptToGenPairings_def dest: pool_inv_final)

lemma AttemptToGenPairings_Some:
  "fst (AttemptToGenPairings groups lastRun maxA rnd k) = Inr (Some P) \<Longrightarrow> valid_matchset groups lastRun P"
  using AttemptToGenPairings_cases[of groups lastRun maxA rnd k] by auto

lemma AttemptToGenPairings_no_error:
  "fst (AttemptToGenPairings groups lastRun maxA rnd k) \<noteq> Inl e"
  using AttemptToGenPairings_cases[of groups lastRun maxA rnd k] by auto

section \<open>The people and the counts\<close>

lemma people_from_index: "(name, j) \<in> set (people_from i groups) \<Longrightarrow> int i \<le> j"
  by (induction i groups rule: people_from.induct) auto

lemma distinct_people_from:
  "distinct (people_from i groups) = (\<forall>names \<in> set groups. distinct names)"
proof (induction i groups rule: people_from.induct)
  case (1 i)
  show ?case by simp
next
  case (2 i names rest)
  have "distinct (map (\<lambda>name. (name, int i)) names) = distinct names"
    by (simp add: distinct_map inj_on_def)
  moreover have "set (map (\<lambda>name. (name, int i)) names) \<inter> set (people_from (Suc i) rest) = {}"
    by (auto dest: people_from_index)
  ultimately show ?case using 2 by simp
qed

lemma distinct_build_people:
  "distinct (build_people groups) = (\<forall>names \<in> set groups. distinct names)"
  by (simp add: build_people_def distinct_people_from)

lemma giver_count_pos: "finite P \<Longrightarrow> (0 < giver_count P p) = (p \<in> fst ` P)"
proof -
  assume fin: "finite P"
  have "(Set.filter (\<lambda>q. fst q = p) P \<noteq> {}) = (p \<in> fst ` P)"
    by force
  with fin show ?thesis by (simp add: giver_count_def card_gt_0_iff)
qed

lemma getter_count_pos: "finite P \<Longrightarrow> (0 < getter_count P p) = (p \<in> snd ` P)"
proof -
  assume fin: "finite P"
  have "(Set.filter (\<lambda>q. snd q = p) P \<noteq> {}) = (p \<in> snd ` P)"
    by force
  with fin show ?thesis by (simp add: getter_count_def card_gt_0_iff)
qed

lemma covers_people_images:
  assumes "covers_people groups P"
  shows "fst ` P = set (build_people groups)" and "snd ` P = set (build_people groups)"
proof -
  from assms have fin: "finite P"
    and g: "\<forall>p. giver_count P p = count_list (build_people groups) p"
    and r: "\<forall>p. getter_count P p = count_list (build_people groups) p"
    unfolding covers_people_def by blast+
  have "(p \<in> fst ` P) = (p \<in> set (build_people groups))" for p
    using giver_count_pos[OF fin, of p] g count_list_0_iff[of "build_people groups" p]
    by (metis gr0I less_numeral_extra(3))
  then show "fst ` P = set (build_people groups)" by blast
  have "(p \<in> snd ` P) = (p \<in> set (build_people groups))" for p
    using getter_count_pos[OF fin, of p] r count_list_0_iff[of "build_people groups" p]
    by (metis gr0I less_numeral_extra(3))
  then show "snd ` P = set (build_people groups)" by blast
qed

lemma covers_people_once:
  assumes "covers_people groups P" and "\<forall>names \<in> set groups. distinct names"
    and "p \<in> set (build_people groups)"
  shows "giver_count P p = 1 \<and> getter_count P p = 1"
proof -
  from assms(2) have "distinct (build_people groups)"
    by (simp add: distinct_build_people)
  then have "count (mset (build_people groups)) p = (if p \<in> set (build_people groups) then 1 else 0)"
    unfolding distinct_count_atmost_1 by blast
  with assms(3) have "count_list (build_people groups) p = 1"
    by (simp add: count_mset)
  with assms(1) show ?thesis unfolding covers_people_def by metis
qed

lemma GenPairings_loop_Some:
  assumes "GenPairings_loop groups lastRun rnd tries k = Some res"
  shows "\<exists>k'. fst (AttemptToGenPairings groups lastRun 1000 rnd k') = map_sum id Some res"
proof (rule GenPairings_loop.raw_induct[where P = "\<lambda>groups lastRun rnd tries k res.
     \<exists>k'. fst (AttemptToGenPairings groups lastRun 1000 rnd k') = map_sum id Some res", OF _ assms])
  fix loop groups lastRun rnd and tries :: int and k res
  assume IH: "\<And>groups lastRun rnd tries k res. loop groups lastRun rnd tries k = Some res \<Longrightarrow>
     \<exists>k'. fst (AttemptToGenPairings groups lastRun 1000 rnd k') = map_sum id Some res"
    and eq: "(let tries' = tries + 1
      in case AttemptToGenPairings groups lastRun 1000 rnd k of
         (Inl e, k') \<Rightarrow> Some (Inl e)
         | (Inr None, k') \<Rightarrow> loop groups lastRun rnd tries' k'
         | (Inr (Some pairings), k') \<Rightarrow> Some (Inr pairings)) = Some res"
  obtain a k' where att: "AttemptToGenPairings groups lastRun 1000 rnd k = (a, k')"
    by (cases "AttemptToGenPairings groups lastRun 1000 rnd k")
  show "\<exists>k'. fst (AttemptToGenPairings groups lastRun 1000 rnd k') = map_sum id Some res"
  proof (cases a)
    case (Inl e)
    with eq att have "res = Inl e" by simp
    with att Inl show ?thesis by (intro exI[of _ k]) simp
  next
    case (Inr v)
    show ?thesis
    proof (cases v)
      case None
      with eq att Inr have "loop groups lastRun rnd (tries + 1) k' = Some res" by simp
      then show ?thesis by (rule IH)
    next
      case (Some P)
      with eq att Inr have "res = Inr P" by simp
      with att Inr Some show ?thesis by (intro exI[of _ k]) simp
    qed
  qed
qed

lemma GenPairings_loop_never:
  assumes "\<And>k. fst (AttemptToGenPairings groups lastRun 1000 rnd k) = Inr None"
  shows "GenPairings_loop groups lastRun rnd tries k = None"
proof (cases "GenPairings_loop groups lastRun rnd tries k")
  case None
  then show ?thesis .
next
  case (Some res)
  from GenPairings_loop_Some[OF Some] assms show ?thesis
    by (cases res) auto
qed

lemma GenPairings_loop_first:
  "fst (AttemptToGenPairings groups lastRun 1000 rnd k) = Inr (Some P) \<Longrightarrow>
   GenPairings_loop groups lastRun rnd tries k = Some (Inr P)"
  by (subst GenPairings_loop.simps) (auto split: prod.splits)

lemma GenPairings_Some:
  assumes "GenPairings groups lastRun rnd = Some res"
  shows "\<exists>P. res = Inr P \<and> valid_matchset groups lastRun P"
proof -
  from assms obtain k where k: "fst (AttemptToGenPairings groups lastRun 1000 rnd k) = map_sum id Some res"
    unfolding GenPairings_def by (blast dest: GenPairings_loop_Some)
  show ?thesis
  proof (cases res)
    case (Inl e)
    with k AttemptToGenPairings_no_error[of groups lastRun 1000 rnd k e] show ?thesis by simp
  next
    case (Inr P)
    with k AttemptToGenPairings_Some[of groups lastRun 1000 rnd k P] show ?thesis by simp
  qed
qed

section \<open>Inputs with no MatchSet\<close>

text \<open>Two groups of one person: the first person can give to the second only.\<close>

lemma people_two: "build_people [[x], [y]] = [(x, 0), (y, 1)]"
  by (simp add: build_people_def)

lemma two_singletons_need_pairing:
  assumes v: "valid_matchset [[x], [y]] H P"
  shows "PairingToString ((x, 0), (y, 1)) \<notin> set H"
proof -
  from v have c: "covers_people [[x], [y]] P" and ok: "\<forall>q \<in> P. pairing_ok H P q"
    by (simp_all add: valid_matchset_def)
  from covers_people_images[OF c] have f: "fst ` P = {(x, 0), (y, 1)}"
    and s: "snd ` P = {(x, 0), (y, 1)}"
    by (simp_all add: people_two)
  from f have "(x, 0) \<in> fst ` P" by simp
  then obtain q where q: "q \<in> P" "fst q = (x, 0)" by (auto simp del: split_paired_Ex)
  from q(1) s have "snd q = (x, 0) \<or> snd q = (y, 1)" by (metis imageI insertE singletonD)
  moreover from ok q(1) have pq: "pairing_ok H P q" by blast
  ultimately have "snd q = (y, 1)" using q(2) by (auto simp: pairing_ok_def)
  with q(2) have "q = ((x, 0), (y, 1))" by (simp add: prod_eq_iff)
  with pq show ?thesis by (simp add: pairing_ok_def)
qed

text \<open>A group of three and a group of one: each pairing has the one as giver or as getter,
  so a set that obeys the rules has two pairings at most, not four.\<close>

lemma people_three_one: "build_people [[a, b, c], [d]] = [(a, 0), (b, 0), (c, 0), (d, 1)]"
  by (simp add: build_people_def)

lemma three_and_one_infeasible: "\<not> valid_matchset [[a, b, c], [d]] H P"
proof
  assume v: "valid_matchset [[a, b, c], [d]] H P"
  then have c: "covers_people [[a, b, c], [d]] P" and ok: "\<forall>q \<in> P. pairing_ok H P q"
    by (simp_all add: valid_matchset_def)
  from c have fin: "finite P" and card: "card P = 4"
    and g: "giver_count P (d, 1) = 1" and r: "getter_count P (d, 1) = 1"
    by (simp_all add: covers_people_def people_three_one)
  from covers_people_images[OF c] have f: "fst ` P = {(a, 0), (b, 0), (c, 0), (d, 1)}"
    and s: "snd ` P = {(a, 0), (b, 0), (c, 0), (d, 1)}"
    by (simp_all add: people_three_one)
  have "fst q = (d, 1) \<or> snd q = (d, 1)" if q: "q \<in> P" for q
  proof -
    from q f have "fst q \<in> {(a, 0), (b, 0), (c, 0), (d, 1)}" by blast
    moreover from q s have "snd q \<in> {(a, 0), (b, 0), (c, 0), (d, 1)}" by blast
    moreover from ok q have "snd (fst q) \<noteq> snd (snd q)" by (simp add: pairing_ok_def)
    ultimately show ?thesis by auto
  qed
  then have "P \<subseteq> Set.filter (\<lambda>q. fst q = (d, 1)) P \<union> Set.filter (\<lambda>q. snd q = (d, 1)) P"
    by auto
  with fin have "card P \<le> card (Set.filter (\<lambda>q. fst q = (d, 1)) P \<union> Set.filter (\<lambda>q. snd q = (d, 1)) P)"
    by (intro card_mono) auto
  also have "\<dots> \<le> giver_count P (d, 1) + getter_count P (d, 1)"
    unfolding giver_count_def getter_count_def by (rule card_Un_le)
  finally show False using card g r by simp
qed

section \<open>The attempts counted\<close>

lemma assign_loop_finished_attempts:
  assumes run: "assign_loop lastRun maxA rnd givers getters pairings attempts k = (Inr (Finished gs P a), k')"
    and ne: "givers \<noteq> []"
  shows "a \<le> maxA"
proof -
  note R = assign_loop_rule[where I = "\<lambda>(givers::person list) (getters::person list) (P::pairing set) (a::int). givers = [] \<longrightarrow> a \<le> maxA"
     and givers = givers and getters = getters and pairings = pairings and attempts = attempts and maxA = maxA and lastRun = lastRun and rnd = rnd and k = k]
  have inv: "givers = [] \<longrightarrow> attempts \<le> maxA" using ne by simp
  have rej: "xs = [] \<longrightarrow> n + 1 \<le> maxA"
    if "xs = [] \<longrightarrow> n \<le> maxA" "\<not> maxA < n" "giver \<in> set xs" "getter \<in> set ys" "rejected lastRun Q giver getter"
    for xs ys :: "person list" and Q n giver getter
    using that by auto
  have acc: "remove1 giver xs = [] \<longrightarrow> n \<le> maxA"
    if "xs = [] \<longrightarrow> n \<le> maxA" "\<not> maxA < n" "giver \<in> set xs" "getter \<in> set ys" "\<not> rejected lastRun Q giver getter"
    for xs ys :: "person list" and Q n giver getter
    using that by auto
  from R[OF inv rej acc] run show ?thesis by auto
qed

section \<open>Draws that reach a given MatchSet\<close>

lemma index_of_nth: "x \<in> set xs \<Longrightarrow> index_of x xs < length xs \<and> xs ! index_of x xs = x"
  by (induction xs) auto

lemma RC_index_of: "x \<in> set xs \<Longrightarrow> RC xs (index_of x xs) = Inr x"
  using index_of_nth[of x xs] by (auto simp: RC_def)

lemma length_draws_for: "length (draws_for ms givers getters) = 2 * length ms"
  by (induction ms givers getters rule: draws_for.induct) auto

lemma assign_loop_follows_draws:
  assumes "distinct ms"
    and "mset (map fst ms) = mset givers" and "mset (map snd ms) = mset getters"
    and "\<forall>q \<in> set ms. pairing_ok lastRun (P \<union> set ms) q"
    and "set ms \<inter> P = {}"
    and "\<forall>i < 2 * length ms. rnd (k + i) = draws_for ms givers getters ! i"
    and "attempts \<le> maxA"
  shows "assign_loop lastRun maxA rnd givers getters P attempts k =
         (Inr (Finished [] (P \<union> set ms) attempts), k + 2 * length ms)"
  using assms
proof (induction ms arbitrary: givers getters P k)
  case Nil
  then show ?case by (simp add: assign_loop_done)
next
  case (Cons q ms)
  obtain g r where q: "q = (g, r)" by (cases q)
  have "g \<in> set (map fst (q # ms))" "r \<in> set (map snd (q # ms))"
    by (simp_all add: q)
  with mset_eq_setD[OF Cons.prems(2)] mset_eq_setD[OF Cons.prems(3)]
  have mem: "g \<in> set givers" "r \<in> set getters"
    by simp_all
  then have ne: "givers \<noteq> []" by auto
  from Cons.prems(7) have le: "\<not> maxA < attempts" by simp
  from Cons.prems(6)[rule_format, of 0] have "rnd k = index_of g givers" by (simp add: q)
  with mem have dg: "RC givers (rnd k) = Inr g" by (simp add: RC_index_of)
  from Cons.prems(6)[rule_format, of 1] have "rnd (k + 1) = index_of r getters" by (simp add: q)
  with mem have dr: "RC getters (rnd (k + 1)) = Inr r" by (simp add: RC_index_of)
  from Cons.prems(4) have "pairing_ok lastRun (P \<union> set (q # ms)) (g, r)" by (simp add: q)
  moreover from Cons.prems(5) have "(g, r) \<notin> P" by (simp add: q)
  ultimately have ok: "\<not> rejected lastRun P g r"
    by (auto simp: pairing_ok_def rejected_def)
  have step: "assign_loop lastRun maxA rnd givers getters P attempts k =
     assign_loop lastRun maxA rnd (remove1 g givers) (remove1 r getters) (insert (g, r) P) attempts (k + 2)"
    by (rule assign_loop_accept[OF ne le dg dr ok])
  have "assign_loop lastRun maxA rnd (remove1 g givers) (remove1 r getters) (insert (g, r) P) attempts (k + 2) =
     (Inr (Finished [] (insert (g, r) P \<union> set ms) attempts), k + 2 + 2 * length ms)"
  proof (rule Cons.IH)
    show "distinct ms" using Cons.prems(1) by simp
    have "add_mset g (mset (map fst ms)) = mset givers" using Cons.prems(2) by (simp add: q)
    then have "mset (map fst ms) = mset givers - {#g#}" by (metis add_mset_remove_trivial)
    then show "mset (map fst ms) = mset (remove1 g givers)" by simp
    have "add_mset r (mset (map snd ms)) = mset getters" using Cons.prems(3) by (simp add: q)
    then have "mset (map snd ms) = mset getters - {#r#}" by (metis add_mset_remove_trivial)
    then show "mset (map snd ms) = mset (remove1 r getters)" by simp
    show "\<forall>q' \<in> set ms. pairing_ok lastRun (insert (g, r) P \<union> set ms) q'"
      using Cons.prems(4) by (simp add: q)
    show "set ms \<inter> insert (g, r) P = {}"
      using Cons.prems(1,5) by (auto simp: q)
    show "\<forall>i < 2 * length ms. rnd (k + 2 + i) = draws_for ms (remove1 g givers) (remove1 r getters) ! i"
    proof (intro allI impI)
      fix i assume "i < 2 * length ms"
      with Cons.prems(6)[rule_format, of "i + 2"] show "rnd (k + 2 + i) = draws_for ms (remove1 g givers) (remove1 r getters) ! i"
        by (simp add: q add.assoc add.commute)
    qed
    show "attempts \<le> maxA" by fact
  qed
  with step show ?case by (simp add: q)
qed

lemma covers_people_msets:
  assumes "covers_people groups M"
  shows "image_mset fst (mset_set M) = mset (build_people groups)"
    and "image_mset snd (mset_set M) = mset (build_people groups)"
proof -
  from assms have fin: "finite M" by (simp add: covers_people_def)
  from assms have g: "giver_count M p = count_list (build_people groups) p" for p
    unfolding covers_people_def by blast
  from assms have r: "getter_count M p = count_list (build_people groups) p" for p
    unfolding covers_people_def by blast
  show "image_mset fst (mset_set M) = mset (build_people groups)"
  proof (rule multiset_eqI)
    fix p
    show "count (image_mset fst (mset_set M)) p = count (mset (build_people groups)) p"
      using g[of p] by (simp only: count_image_mset_set[OF fin] count_mset giver_count_def)
  qed
  show "image_mset snd (mset_set M) = mset (build_people groups)"
  proof (rule multiset_eqI)
    fix p
    show "count (image_mset snd (mset_set M)) p = count (mset (build_people groups)) p"
      using r[of p] by (simp only: count_image_mset_set[OF fin] count_mset getter_count_def)
  qed
qed

lemma AttemptToGenPairings_reaches:
  assumes v: "valid_matchset groups lastRun M" and m: "0 \<le> maxA"
  shows "\<exists>rnd. fst (AttemptToGenPairings groups lastRun maxA rnd 0) = Inr (Some M)"
proof -
  let ?people = "build_people groups"
  from v have c: "covers_people groups M" and ok: "\<forall>q \<in> M. pairing_ok lastRun M q"
    by (simp_all add: valid_matchset_def)
  from c have "finite M" by (simp add: covers_people_def)
  then obtain ms where ms: "set ms = M" "distinct ms"
    using finite_distinct_list by blast
  then have mm: "mset_set M = mset ms" by (metis mset_set_set)
  let ?rnd = "draws (draws_for ms ?people ?people)"
  have "assign_loop lastRun maxA ?rnd ?people ?people {} 0 0 =
        (Inr (Finished [] ({} \<union> set ms) 0), 0 + 2 * length ms)"
  proof (rule assign_loop_follows_draws)
    show "distinct ms" by fact
    show "mset (map fst ms) = mset ?people" using covers_people_msets(1)[OF c] by (simp add: mm)
    show "mset (map snd ms) = mset ?people" using covers_people_msets(2)[OF c] by (simp add: mm)
    show "\<forall>q \<in> set ms. pairing_ok lastRun ({} \<union> set ms) q" using ok ms by simp
    show "set ms \<inter> {} = {}" by simp
    show "\<forall>i < 2 * length ms. ?rnd (0 + i) = draws_for ms ?people ?people ! i"
      by (simp add: draws_def length_draws_for)
    show "0 \<le> maxA" by fact
  qed
  then have "fst (AttemptToGenPairings groups lastRun maxA ?rnd 0) = Inr (Some M)"
    by (simp add: AttemptToGenPairings_def ms)
  then show ?thesis by blast
qed

section \<open>Names: case, whitespace and quotes\<close>

lemma of_char_dquote: "(of_char dquote :: nat) = 34"
  by (simp add: dquote_def)

lemma of_char_lower_char:
  "(of_char (lower_char c) :: nat) =
     (if (65 \<le> (of_char c :: nat) \<and> (of_char c :: nat) \<le> 90) \<or>
         (192 \<le> (of_char c :: nat) \<and> (of_char c :: nat) \<le> 222 \<and> (of_char c :: nat) \<noteq> 215)
      then of_char c + 32 else of_char c)"
  by (simp add: lower_char_def Let_def)

lemma is_space_lower_char: "is_space (lower_char c) = is_space c"
  by (auto simp: is_space_def Let_def of_char_lower_char)

lemma lower_char_dquote: "(lower_char c = dquote) = (c = dquote)"
proof -
  have "(lower_char c = dquote) = ((of_char (lower_char c) :: nat) = of_char dquote)"
    by (simp only: of_char_eq_iff)
  also have "\<dots> = ((of_char c :: nat) = of_char dquote)"
    by (auto simp: of_char_lower_char of_char_dquote)
  also have "\<dots> = (c = dquote)"
    by (simp only: of_char_eq_iff)
  finally show ?thesis .
qed

lemma remove_quotes_lower: "remove_quotes (py_lower s) = py_lower (remove_quotes s)"
  by (induction s) (auto simp: remove_quotes_def py_lower_def lower_char_dquote)

lemma py_strip_core:
  assumes "list_all is_space l" "list_all is_space r" "no_outer_space core"
  shows "py_strip (l @ core @ r) = core"
proof (cases "core = []")
  case True
  with assms(1,2) have "\<forall>x \<in> set (l @ core @ r). is_space x"
    by (auto simp: list_all_iff)
  then have front: "dropWhile is_space (l @ core @ r) = []"
    by (simp only: dropWhile_eq_Nil_conv)
  show ?thesis unfolding py_strip_def front using True by simp
next
  case False
  with assms(3) have h: "\<not> is_space (hd core)" and t: "\<not> is_space (last core)"
    by (simp_all add: no_outer_space_def)
  from assms(1) have "dropWhile is_space (l @ core @ r) = dropWhile is_space (core @ r)"
    by (intro dropWhile_append2) (simp add: list_all_iff)
  also from False h have "\<dots> = core @ r"
    by (cases core) simp_all
  finally have front: "dropWhile is_space (l @ core @ r) = core @ r" .
  from assms(2) have "dropWhile is_space (rev r @ rev core) = dropWhile is_space (rev core)"
    by (intro dropWhile_append2) (simp add: list_all_iff)
  also from False t have "\<dots> = rev core"
    by (cases "rev core") (auto simp: last_rev hd_rev[symmetric] simp del: rev_is_Nil_conv)
  finally show ?thesis by (simp add: py_strip_def front)
qed

lemma py_strip_trimmed: "trimmed_of name core \<Longrightarrow> py_strip name = core"
  by (auto simp: trimmed_of_def py_strip_core)

lemma py_strip_id: "no_outer_space s \<Longrightarrow> py_strip s = s"
  using py_strip_core[of "[]" "[]" s] by simp

lemma trimmed_of_lower:
  assumes "trimmed_of name core"
  shows "trimmed_of (py_lower name) (py_lower core)"
proof -
  from assms obtain l r where n: "name = l @ core @ r" and l: "list_all is_space l"
    and r: "list_all is_space r" and c: "no_outer_space core"
    by (auto simp: trimmed_of_def)
  have "py_lower name = py_lower l @ py_lower core @ py_lower r"
    by (simp add: n py_lower_def)
  moreover from l have "list_all is_space (py_lower l)"
    by (simp add: py_lower_def list_all_iff is_space_lower_char)
  moreover from r have "list_all is_space (py_lower r)"
    by (simp add: py_lower_def list_all_iff is_space_lower_char)
  moreover from c have "no_outer_space (py_lower core)"
    by (auto simp: no_outer_space_def py_lower_def hd_map last_map is_space_lower_char)
  ultimately show ?thesis unfolding trimmed_of_def by blast
qed

lemma key_name_trimmed:
  "trimmed_of name core \<Longrightarrow> remove_quotes (py_strip (py_lower name)) = remove_quotes (py_lower core)"
  by (simp add: py_strip_trimmed[OF trimmed_of_lower])

lemma no_outer_space_strip: "no_outer_space (py_strip s)"
proof (cases "py_strip s = []")
  case True
  then show ?thesis by (simp add: no_outer_space_def)
next
  case False
  let ?d = "dropWhile is_space s"
  let ?e = "dropWhile is_space (rev ?d)"
  from False have e: "?e \<noteq> []" by (simp add: py_strip_def)
  then have d: "?d \<noteq> []" by (auto simp del: dropWhile_eq_Nil_conv)
  from e have "\<not> is_space (hd ?e)" by (rule hd_dropWhile)
  then have l: "\<not> is_space (last (py_strip s))"
    using e by (simp add: py_strip_def last_rev)
  from d have hd: "\<not> is_space (hd ?d)" by (rule hd_dropWhile)
  from e obtain x where "x \<in> set (rev ?d)" "\<not> is_space x"
    by (metis dropWhile_eq_Nil_conv)
  then have "last ?e = last (rev ?d)" by (rule dropWhile_last)
  also have "\<dots> = hd ?d" using d by (simp add: last_rev)
  finally have "hd (py_strip s) = hd ?d"
    using e by (simp add: py_strip_def hd_rev)
  with hd l False show ?thesis by (simp add: no_outer_space_def)
qed

lemma trimmed_of_strip: "trimmed_of name (py_strip name)"
proof -
  let ?d = "dropWhile is_space name"
  have "name = takeWhile is_space name @ ?d" by simp
  moreover have "rev ?d = takeWhile is_space (rev ?d) @ dropWhile is_space (rev ?d)" by simp
  then have "?d = rev (dropWhile is_space (rev ?d)) @ rev (takeWhile is_space (rev ?d))"
    by (metis rev_append rev_rev_ident)
  ultimately have "name = takeWhile is_space name @ py_strip name @ rev (takeWhile is_space (rev ?d))"
    by (simp add: py_strip_def)
  moreover have "list_all is_space (takeWhile is_space name)"
    by (auto simp: list_all_iff dest: set_takeWhileD)
  moreover have "list_all is_space (rev (takeWhile is_space (rev ?d)))"
    by (auto simp: list_all_iff dest: set_takeWhileD)
  ultimately show ?thesis
    unfolding trimmed_of_def using no_outer_space_strip by blast
qed

section \<open>The listing, the keys joined and split\<close>







lemma format_step_line:
  "format_step showGroups q (printLines, lastRuns) =
     (printLines @ [pairing_line showGroups q], lastRuns @ [PairingToString q])"
  by (cases q rule: PairingToString.cases) (simp add: pairing_line_def)

lemma fold_format_step:
  "fold (format_step showGroups) qs (printLines, lastRuns) =
     (printLines @ map (pairing_line showGroups) qs, lastRuns @ map PairingToString qs)"
  by (induction qs arbitrary: printLines lastRuns) (simp_all add: format_step_line del: format_step.simps)

lemma FormatPairings_spec:
  "FormatPairings groups P =
     (py_join [CHR 0x0A] (map (pairing_line (HaveDuplicateNames groups)) (sorted_list_of_set P)),
      py_join ''::'' (map PairingToString (sorted_list_of_set P)))"
  by (simp add: FormatPairings_def fold_format_step)

lemma prefix_delim_Cons:
  "prefix ''::'' (c # cs) = (c = CHR '':'' \<and> cs \<noteq> [] \<and> hd cs = CHR '':'')"
  by (cases cs) auto

lemma suffix_colon_Cons:
  "suffix '':'' (c # cs) = ((cs = [] \<and> c = CHR '':'') \<or> suffix '':'' cs)"
  by (cases cs) (auto simp: suffix_Cons)

lemma split_from_skip:
  "\<not> prefix sep (c # cs) \<Longrightarrow> split_from sep cur (c # cs) = split_from sep (c # cur) cs"
  by simp

lemma split_from_cut:
  "sep \<noteq> [] \<Longrightarrow> prefix sep (c # cs) \<Longrightarrow>
   split_from sep cur (c # cs) = rev cur # split_from sep [] (drop (length sep) (c # cs))"
  by simp

lemma split_from_delim:
  "split_from ''::'' cur (''::'' @ rest) = rev cur # split_from ''::'' [] rest"
  using split_from_cut[of "''::''" "CHR '':''" "CHR '':'' # rest" cur] by simp

lemma split_from_key_inner:
  "\<not> sublist ''::'' x \<Longrightarrow> \<not> suffix '':'' x \<Longrightarrow>
   split_from ''::'' cur (x @ ''::'' @ rest) = (rev cur @ x) # split_from ''::'' [] rest"
proof (induction x arbitrary: cur)
  case Nil
  show ?case using split_from_delim[of cur rest] by simp
next
  case (Cons c cs)
  from Cons.prems have np: "\<not> prefix ''::'' (c # cs)" and ns: "\<not> sublist ''::'' cs"
    by (simp_all add: sublist_Cons_right)
  from Cons.prems(2) have nl: "\<not> (cs = [] \<and> c = CHR '':'')" and nsf: "\<not> suffix '':'' cs"
    by (simp_all add: suffix_colon_Cons)
  from np nl have "\<not> prefix ''::'' (c # (cs @ ''::'' @ rest))"
    by (cases cs) (auto simp: prefix_delim_Cons)
  then have "split_from ''::'' cur (c # (cs @ ''::'' @ rest)) =
             split_from ''::'' (c # cur) (cs @ ''::'' @ rest)"
    by (rule split_from_skip)
  then have "split_from ''::'' cur ((c # cs) @ ''::'' @ rest) =
             split_from ''::'' (c # cur) (cs @ ''::'' @ rest)"
    by (simp only: append_Cons)
  also have "\<dots> = (rev (c # cur) @ cs) # split_from ''::'' [] rest"
    using ns nsf by (rule Cons.IH)
  finally show ?case by simp
qed

lemma split_from_key_last:
  "\<not> sublist ''::'' x \<Longrightarrow> split_from ''::'' cur x = [rev cur @ x]"
proof (induction x arbitrary: cur)
  case Nil
  show ?case by simp
next
  case (Cons c cs)
  from Cons.prems have np: "\<not> prefix ''::'' (c # cs)" and ns: "\<not> sublist ''::'' cs"
    by (simp_all add: sublist_Cons_right)
  from np have "split_from ''::'' cur (c # cs) = split_from ''::'' (c # cur) cs"
    by (rule split_from_skip)
  also have "\<dots> = [rev (c # cur) @ cs]" using ns by (rule Cons.IH)
  finally show ?case by simp
qed

lemma split_from_nonempty: "split_from sep cur t \<noteq> []"
  by (induction sep cur t rule: split_from.induct) simp_all

lemma split_from_cut_short:
  "sublist ''::'' x \<or> (suffix '':'' x \<and> prefix '':'' rest) \<Longrightarrow>
   length (hd (split_from ''::'' cur (x @ rest))) < length cur + length x"
proof (induction x arbitrary: cur)
  case Nil
  then show ?case by simp
next
  case (Cons c cs)
  show ?case
  proof (cases "prefix ''::'' (c # (cs @ rest))")
    case True
    have "split_from ''::'' cur (c # (cs @ rest)) =
               rev cur # split_from ''::'' [] (drop (length ''::'') (c # (cs @ rest)))"
      by (rule split_from_cut[OF _ True]) simp
    then have "hd (split_from ''::'' cur ((c # cs) @ rest)) = rev cur"
      by (simp only: append_Cons list.sel)
    then show ?thesis by simp
  next
    case False
    then have "\<not> prefix ''::'' (c # cs)"
      by (cases cs) (auto simp: prefix_delim_Cons)
    moreover from False have "\<not> (cs = [] \<and> c = CHR '':'' \<and> prefix '':'' rest)"
      by (cases rest) (auto simp: prefix_delim_Cons)
    ultimately have "sublist ''::'' cs \<or> (suffix '':'' cs \<and> prefix '':'' rest)"
      using Cons.prems by (auto simp: sublist_Cons_right suffix_colon_Cons)
    then have "length (hd (split_from ''::'' (c # cur) (cs @ rest))) < length (c # cur) + length cs"
      by (rule Cons.IH)
    moreover from False have "split_from ''::'' cur (c # (cs @ rest)) = split_from ''::'' (c # cur) (cs @ rest)"
      by (rule split_from_skip)
    ultimately show ?thesis by simp
  qed
qed

lemma py_join_Cons: "py_join sep (x # xs) = (if xs = [] then x else x @ sep @ py_join sep xs)"
  by (cases xs) simp_all

lemma py_join_split_from: "py_join ''::'' (split_from ''::'' cur t) = rev cur @ t"
proof (induction "length t" arbitrary: cur t rule: less_induct)
  case less
  show ?case
  proof (cases t)
    case Nil
    then show ?thesis by simp
  next
    case (Cons c cs)
    show ?thesis
    proof (cases "prefix ''::'' (c # cs)")
      case True
      then obtain r where r: "c # cs = ''::'' @ r" by (auto simp: prefix_def)
      then have d: "drop (length ''::'') (c # cs) = r" by simp
      have "split_from ''::'' cur (c # cs) = rev cur # split_from ''::'' [] r"
        unfolding d[symmetric] by (rule split_from_cut[OF _ True]) simp
      then have "py_join ''::'' (split_from ''::'' cur (c # cs)) =
          rev cur @ ''::'' @ py_join ''::'' (split_from ''::'' [] r)"
        by (simp only: py_join_Cons split_from_nonempty if_False)
      also have "py_join ''::'' (split_from ''::'' [] r) = rev [] @ r"
        by (rule less) (use arg_cong[OF r, of length] Cons in simp)
      finally show ?thesis unfolding Cons r by simp
    next
      case False
      then have "split_from ''::'' cur (c # cs) = split_from ''::'' (c # cur) cs"
        by (rule split_from_skip)
      then have "py_join ''::'' (split_from ''::'' cur (c # cs)) = py_join ''::'' (split_from ''::'' (c # cur) cs)"
        by simp
      also have "\<dots> = rev (c # cur) @ cs"
        by (rule less) (simp add: Cons)
      finally show ?thesis unfolding Cons by simp
    qed
  qed
qed

lemma hd_py_join: "xs \<noteq> [] \<Longrightarrow> hd xs \<noteq> [] \<Longrightarrow> hd (py_join sep xs) = hd (hd xs)"
  by (induction xs rule: induct_list012) simp_all

lemma py_join_last_nonempty: "xs \<noteq> [] \<Longrightarrow> last xs \<noteq> [] \<Longrightarrow> py_join sep xs \<noteq> []"
  by (induction xs rule: induct_list012) simp_all

lemma last_py_join: "xs \<noteq> [] \<Longrightarrow> last xs \<noteq> [] \<Longrightarrow> last (py_join sep xs) = last (last xs)"
proof (induction xs rule: induct_list012)
  case 1
  then show ?case by simp
next
  case (2 x)
  then show ?case by simp
next
  case (3 x y ys)
  from "3.prems" have l: "last (y # ys) \<noteq> []" by simp
  then have "py_join sep (y # ys) \<noteq> []" by (intro py_join_last_nonempty) simp
  then have "last (py_join sep (x # y # ys)) = last (py_join sep (y # ys))" by simp
  also have "\<dots> = last (last (y # ys))" using l by (intro "3.IH"(2)) simp
  finally show ?case by simp
qed

lemma of_char_digit_char: "d < 10 \<Longrightarrow> (of_char (digit_char d) :: nat) = 48 + d"
  by (simp add: digit_char_def)

lemma string_of_nat_head: "string_of_nat n \<noteq> [] \<and> \<not> is_space (hd (string_of_nat n))"
proof (induction n rule: string_of_nat.induct)
  case (1 n)
  show ?case
  proof (cases "n < 10")
    case True
    then show ?thesis
      by (subst (1 2) string_of_nat.simps) (simp add: is_space_def of_char_digit_char)
  next
    case False
    with 1 show ?thesis by (subst (1 2) string_of_nat.simps) simp
  qed
qed

lemma string_of_int_head: "string_of_int i \<noteq> [] \<and> \<not> is_space (hd (string_of_int i))"
  using string_of_nat_head by (simp add: string_of_int_def is_space_def)

lemma PairingToString_head: "PairingToString q \<noteq> [] \<and> \<not> is_space (hd (PairingToString q))"
  using string_of_int_head by (cases q rule: PairingToString.cases) (simp add: Let_def)

lemma split_from_join_iff:
  "keys \<noteq> [] \<Longrightarrow>
   (split_from ''::'' cur (py_join ''::'' keys) = (rev cur @ hd keys) # tl keys) =
   ((\<forall>key \<in> set keys. \<not> sublist ''::'' key) \<and> (\<forall>key \<in> set (butlast keys). \<not> suffix '':'' key))"
proof (induction keys arbitrary: cur rule: induct_list012)
  case 1
  then show ?case by simp
next
  case (2 x)
  show ?case
  proof (cases "sublist ''::'' x")
    case False
    then show ?thesis by (simp add: split_from_key_last)
  next
    case True
    then have "length (hd (split_from ''::'' cur (x @ []))) < length cur + length x"
      by (intro split_from_cut_short) simp
    then have "split_from ''::'' cur x \<noteq> [rev cur @ x]" by auto
    with True show ?thesis by simp
  qed
next
  case (3 x y ys)
  let ?rest = "py_join ''::'' (y # ys)"
  have j: "py_join ''::'' (x # y # ys) = x @ ''::'' @ ?rest" by simp
  show ?case
  proof (cases "sublist ''::'' x \<or> suffix '':'' x")
    case False
    then have "split_from ''::'' cur (x @ ''::'' @ ?rest) = (rev cur @ x) # split_from ''::'' [] ?rest"
      by (intro split_from_key_inner) simp_all
    moreover have "(split_from ''::'' [] ?rest = (rev [] @ hd (y # ys)) # tl (y # ys)) =
      ((\<forall>key \<in> set (y # ys). \<not> sublist ''::'' key) \<and> (\<forall>key \<in> set (butlast (y # ys)). \<not> suffix '':'' key))"
      by (rule "3.IH"(2)) simp
    ultimately show ?thesis using False unfolding j by simp
  next
    case True
    then have "sublist ''::'' x \<or> (suffix '':'' x \<and> prefix '':'' (''::'' @ ?rest))"
      by auto
    then have "length (hd (split_from ''::'' cur (x @ ''::'' @ ?rest))) < length cur + length x"
      by (rule split_from_cut_short)
    then have "split_from ''::'' cur (x @ ''::'' @ ?rest) \<noteq> (rev cur @ x) # y # ys" by auto
    with True show ?thesis unfolding j by auto
  qed
qed

lemma LoadGroups_join_iff:
  assumes heads: "\<forall>key \<in> set keys. key \<noteq> [] \<and> \<not> is_space (hd key)"
  shows "(LoadGroups \<lparr>cfg_groups = gs, cfg_lastRun = Some (py_join ''::'' keys)\<rparr> = Inr (gs, keys)) =
         keys_round_trip keys"
proof (cases "keys = []")
  case True
  then show ?thesis by (simp add: LoadGroups_def py_strip_def keys_round_trip_def)
next
  case ne: False
  let ?s = "py_join ''::'' keys"
  from ne have "last keys \<in> set keys" by (rule last_in_set)
  with heads have lne: "last keys \<noteq> []" by blast
  from ne have "hd keys \<in> set keys" by (rule hd_in_set)
  with heads have hne: "hd keys \<noteq> []" and hsp: "\<not> is_space (hd (hd keys))" by blast+
  have sne: "?s \<noteq> []" using ne lne by (rule py_join_last_nonempty)
  have hd_s: "hd ?s = hd (hd keys)" using ne hne by (rule hd_py_join)
  have last_s: "last ?s = last (last keys)" using ne lne by (rule last_py_join)
  have split_iff: "(split_from ''::'' [] ?s = keys) =
      ((\<forall>key \<in> set keys. \<not> sublist ''::'' key) \<and> (\<forall>key \<in> set (butlast keys). \<not> suffix '':'' key))"
    using split_from_join_iff[OF ne, of "[]"] ne by simp
  show ?thesis
  proof (cases "is_space (last (last keys))")
    case False
    with sne hd_s last_s hsp have "no_outer_space ?s" by (simp add: no_outer_space_def)
    then have "py_strip ?s = ?s" by (rule py_strip_id)
    with sne have "LoadGroups \<lparr>cfg_groups = gs, cfg_lastRun = Some ?s\<rparr> =
        Inr (gs, split_from ''::'' [] ?s)"
      by (simp add: LoadGroups_def py_split_def)
    then show ?thesis using split_iff False ne by (simp add: keys_round_trip_def)
  next
    case True
    with last_s have "\<not> no_outer_space ?s" using sne by (simp add: no_outer_space_def)
    with no_outer_space_strip[of ?s] have differ: "py_strip ?s \<noteq> ?s" by auto
    have "LoadGroups \<lparr>cfg_groups = gs, cfg_lastRun = Some ?s\<rparr> \<noteq> Inr (gs, keys)"
    proof (cases "py_strip ?s = []")
      case True
      then show ?thesis using ne by (simp add: LoadGroups_def)
    next
      case False
      then have l: "LoadGroups \<lparr>cfg_groups = gs, cfg_lastRun = Some ?s\<rparr> =
          Inr (gs, split_from ''::'' [] (py_strip ?s))"
        by (simp add: LoadGroups_def py_split_def)
      have "py_join ''::'' (split_from ''::'' [] (py_strip ?s)) = py_strip ?s"
        using py_join_split_from[of "[]" "py_strip ?s"] by simp
      with differ have "split_from ''::'' [] (py_strip ?s) \<noteq> keys" by auto
      with l show ?thesis by simp
    qed
    with True ne show ?thesis by (simp add: keys_round_trip_def)
  qed
qed

section \<open>The claims about AttemptToGenPairings\<close>

text \<open>
  Claim C2. Every pairing \<open>(g, r)\<close> of a set that AttemptToGenPairings returns has
  \<open>g \<noteq> r\<close>, the two in different groups, its key \<open>PairingToString (g, r)\<close> not in the
  history, and the reverse pairing \<open>(r, g)\<close> not in the set.
\<close>

theorem AttemptToGenPairings_pairing_rules:
  assumes "fst (AttemptToGenPairings groups lastRun maxAttempts rnd k) = Inr (Some P)"
    and "(g, r) \<in> P"
  shows "g \<noteq> r \<and> snd g \<noteq> snd r \<and> PairingToString (g, r) \<notin> set lastRun \<and> (r, g) \<notin> P"
proof -
  from assms(1) have "valid_matchset groups lastRun P"
    by (rule AttemptToGenPairings_Some)
  with assms(2) have "pairing_ok lastRun P (g, r)"
    by (auto simp: valid_matchset_def)
  then show ?thesis by (simp add: pairing_ok_def)
qed

text \<open>Three groups of one person and the history \<open>1bob-0ann\<close>: the first draw, Bob for
  Ann, is rejected for the history, the next three are accepted.\<close>

theorem AttemptToGenPairings_pairing_rules_witness:
  "fst (AttemptToGenPairings [[''Ann''], [''Bob''], [''Cy'']] [''1bob-0ann''] 1000
          (draws [1, 0, 0, 1, 0, 1, 0, 0]) 0) =
     Inr (Some {((''Ann'', 0), (''Bob'', 1)), ((''Bob'', 1), (''Cy'', 2)), ((''Cy'', 2), (''Ann'', 0))}) \<and>
   (''Ann'', 0) \<noteq> (''Bob'', 1::int) \<and> snd (''Ann'', 0::int) \<noteq> snd (''Bob'', 1::int) \<and>
   PairingToString ((''Ann'', 0), (''Bob'', 1)) \<notin> set [''1bob-0ann''] \<and>
   ((''Bob'', 1), (''Ann'', 0)) \<notin>
     {((''Ann'', 0), (''Bob'', 1)), ((''Bob'', 1), (''Cy'', 2)), ((''Cy'', 2), (''Ann'', 0))}"
proof -
  have run: "fst (AttemptToGenPairings [[''Ann''], [''Bob''], [''Cy'']] [''1bob-0ann''] 1000
          (draws [1, 0, 0, 1, 0, 1, 0, 0]) 0) =
     Inr (Some {((''Ann'', 0), (''Bob'', 1)), ((''Bob'', 1), (''Cy'', 2)), ((''Cy'', 2), (''Ann'', 0))})"
    by code_simp
  have mem: "((''Ann'', 0), (''Bob'', 1)) \<in>
     {((''Ann'', 0::int), (''Bob'', 1::int)), ((''Bob'', 1), (''Cy'', 2)), ((''Cy'', 2), (''Ann'', 0))}"
    by simp
  from AttemptToGenPairings_pairing_rules[OF run mem] run show ?thesis by simp
qed

text \<open>
  Claim C6. The loop starts with the same people in both pools. It never ends by an
  exception, and whenever it is left with the givers' pool empty, the getters' pool is empty
  too: the branch for leftover getters is never taken.
\<close>

theorem assign_loop_no_leftover_getters:
  "(\<forall>e. fst (assign_loop lastRun maxAttempts rnd people people {} 0 k) \<noteq> Inl e) \<and>
   (\<forall>getters P a.
      fst (assign_loop lastRun maxAttempts rnd people people {} 0 k) = Inr (Finished getters P a)
        \<longrightarrow> getters = [])"
  using assign_loop_pool[OF pool_inv_init[of people lastRun],
      where maxA = maxAttempts and rnd = rnd and attempts = 0 and k = k]
  by (auto dest: pool_inv_lock)

theorem assign_loop_no_leftover_getters_witness:
  "fst (assign_loop [] 1000 (draws [0, 1, 0, 1, 0, 0]) (build_people [[''Ann''], [''Bob''], [''Cy'']])
         (build_people [[''Ann''], [''Bob''], [''Cy'']]) {} 0 0) =
     Inr (Finished [] {((''Ann'', 0), (''Bob'', 1)), ((''Bob'', 1), (''Cy'', 2)), ((''Cy'', 2), (''Ann'', 0))} 0) \<and>
   ([] :: person list) = []"
proof -
  have run: "fst (assign_loop [] 1000 (draws [0, 1, 0, 1, 0, 0]) (build_people [[''Ann''], [''Bob''], [''Cy'']])
         (build_people [[''Ann''], [''Bob''], [''Cy'']]) {} 0 0) =
     Inr (Finished [] {((''Ann'', 0), (''Bob'', 1)), ((''Bob'', 1), (''Cy'', 2)), ((''Cy'', 2), (''Ann'', 0))} 0)"
    by code_simp
  from assign_loop_no_leftover_getters[of "[]" 1000 "draws [0, 1, 0, 1, 0, 0]"
      "build_people [[''Ann''], [''Bob''], [''Cy'']]" 0] run
  show ?thesis by blast
qed

text \<open>
  Claim C1, as amended. A set that AttemptToGenPairings returns (and so a set that GenPairings
  returns) has as many pairings as there are people, and every person \<open>(name, groupIndex)\<close>
  is the giver of as many pairings, and the getter of as many, as the person occurs among the
  people built from the groups: exactly one of each when no name is written twice in one
  group.
\<close>

theorem AttemptToGenPairings_covers:
  assumes "fst (AttemptToGenPairings groups lastRun maxAttempts rnd k) = Inr (Some P) \<or>
           GenPairings groups lastRun rnd' = Some (Inr P)"
  shows "covers_people groups P \<and>
         ((\<forall>names \<in> set groups. distinct names) \<longrightarrow>
          (\<forall>p \<in> set (build_people groups). giver_count P p = 1 \<and> getter_count P p = 1))"
proof -
  from assms have "valid_matchset groups lastRun P"
    by (auto dest: AttemptToGenPairings_Some GenPairings_Some)
  then have "covers_people groups P" by (simp add: valid_matchset_def)
  then show ?thesis using covers_people_once by blast
qed

theorem AttemptToGenPairings_covers_witness:
  "fst (AttemptToGenPairings [[''Ann''], [''Bob''], [''Cy'']] [] 1000 (draws [0, 1, 0, 1, 0, 0]) 0) =
     Inr (Some {((''Ann'', 0), (''Bob'', 1)), ((''Bob'', 1), (''Cy'', 2)), ((''Cy'', 2), (''Ann'', 0))}) \<and>
   covers_people [[''Ann''], [''Bob''], [''Cy'']]
     {((''Ann'', 0), (''Bob'', 1)), ((''Bob'', 1), (''Cy'', 2)), ((''Cy'', 2), (''Ann'', 0))} \<and>
   giver_count {((''Ann'', 0), (''Bob'', 1)), ((''Bob'', 1), (''Cy'', 2)), ((''Cy'', 2), (''Ann'', 0))} (''Ann'', 0) = 1 \<and>
   getter_count {((''Ann'', 0), (''Bob'', 1)), ((''Bob'', 1), (''Cy'', 2)), ((''Cy'', 2), (''Ann'', 0))} (''Ann'', 0) = 1"
proof -
  have run: "fst (AttemptToGenPairings [[''Ann''], [''Bob''], [''Cy'']] [] 1000 (draws [0, 1, 0, 1, 0, 0]) 0) =
     Inr (Some {((''Ann'', 0), (''Bob'', 1)), ((''Bob'', 1), (''Cy'', 2)), ((''Cy'', 2), (''Ann'', 0))})"
    by code_simp
  have d: "\<forall>names \<in> set [[''Ann''], [''Bob''], [''Cy'']]. distinct names" by simp
  have m: "(''Ann'', 0) \<in> set (build_people [[''Ann''], [''Bob''], [''Cy'']])"
    by (simp add: build_people_def)
  from AttemptToGenPairings_covers[OF disjI1[OF run]] d m run show ?thesis by blast
qed

text \<open>The claim as stated, "exactly once" for every list of groups, fails when a name is
  written twice in one group: of the six people here the person \<open>(Ann, 0)\<close> is the giver
  of two pairings of the set returned.\<close>

theorem AttemptToGenPairings_covers_counterexample:
  "fst (AttemptToGenPairings [[''Ann'', ''Ann''], [''Bob''], [''Cy''], [''Dee''], [''Eve'']] [] 1000
          (draws [0, 2, 0, 2, 2, 0, 2, 0, 0, 0, 0, 0]) 0) =
     Inr (Some {((''Ann'', 0), (''Bob'', 1)), ((''Ann'', 0), (''Cy'', 2)), ((''Dee'', 3), (''Ann'', 0)),
                ((''Eve'', 4), (''Ann'', 0)), ((''Bob'', 1), (''Dee'', 3)), ((''Cy'', 2), (''Eve'', 4))}) \<and>
   (''Ann'', 0) \<in> set (build_people [[''Ann'', ''Ann''], [''Bob''], [''Cy''], [''Dee''], [''Eve'']]) \<and>
   giver_count {((''Ann'', 0), (''Bob'', 1)), ((''Ann'', 0), (''Cy'', 2)), ((''Dee'', 3), (''Ann'', 0)),
                ((''Eve'', 4), (''Ann'', 0)), ((''Bob'', 1), (''Dee'', 3)), ((''Cy'', 2), (''Eve'', 4))} (''Ann'', 0) = 2"
  by code_simp

text \<open>
  Claim C4. For the groups \<open>[["Alice"], ["Bob"]]\<close> and the history \<open>["0alice-1bob"]\<close>
  AttemptToGenPairings returns \<open>None\<close>, whatever the random draws (and whatever
  \<open>maxAttempts\<close>, 1000 by default).
\<close>

theorem AttemptToGenPairings_Alice_Bob:
  "fst (AttemptToGenPairings [[''Alice''], [''Bob'']] [''0alice-1bob''] maxAttempts rnd k) = Inr None"
proof -
  have "PairingToString ((''Alice'', 0), (''Bob'', 1)) = ''0alice-1bob''"
    by code_simp
  then have "\<not> valid_matchset [[''Alice''], [''Bob'']] [''0alice-1bob''] P" for P
    using two_singletons_need_pairing[of "''Alice''" "''Bob''" "[''0alice-1bob'']" P] by auto
  with AttemptToGenPairings_cases[of "[[''Alice''], [''Bob'']]" "[''0alice-1bob'']" maxAttempts rnd k]
  show ?thesis by auto
qed

text \<open>
  Claim C5. When the loop is at its head with givers left and the counter of failed attempts
  above \<open>maxAttempts\<close>, it gives up, which AttemptToGenPairings returns as \<open>None\<close>; a
  loop that started with givers and was left by its condition has its counter at most
  \<open>maxAttempts\<close>; and a set that is returned is never partial: it has one pairing for each
  person, and all the people are givers and getters in it.
\<close>

theorem AttemptToGenPairings_gives_up:
  "(givers \<noteq> [] \<and> maxAttempts < attempts \<longrightarrow>
      assign_loop lastRun maxAttempts rnd givers getters pairings attempts k = (Inr GaveUp, k)) \<and>
   (givers \<noteq> [] \<and>
    assign_loop lastRun maxAttempts rnd givers getters pairings attempts k = (Inr (Finished gs P' a), k')
      \<longrightarrow> a \<le> maxAttempts) \<and>
   (fst (AttemptToGenPairings groups lastRun maxAttempts rnd k) = Inr (Some P) \<longrightarrow>
      card P = length (build_people groups) \<and>
      fst ` P = set (build_people groups) \<and> snd ` P = set (build_people groups))"
proof (intro conjI impI)
  assume "givers \<noteq> [] \<and> maxAttempts < attempts"
  then show "assign_loop lastRun maxAttempts rnd givers getters pairings attempts k = (Inr GaveUp, k)"
    by (simp add: assign_loop_gave_up)
next
  assume "givers \<noteq> [] \<and>
    assign_loop lastRun maxAttempts rnd givers getters pairings attempts k = (Inr (Finished gs P' a), k')"
  then show "a \<le> maxAttempts"
    by (blast intro: assign_loop_finished_attempts)
next
  assume "fst (AttemptToGenPairings groups lastRun maxAttempts rnd k) = Inr (Some P)"
  then have c: "covers_people groups P"
    by (auto dest: AttemptToGenPairings_Some simp: valid_matchset_def)
  then show "card P = length (build_people groups)" by (simp add: covers_people_def)
  from c show "fst ` P = set (build_people groups)" by (rule covers_people_images)
  from c show "snd ` P = set (build_people groups)" by (rule covers_people_images)
qed

text \<open>With \<open>maxAttempts = 2\<close> and a random source of zeros, Ann is drawn for Ann three
  times and the attempt ends with \<open>None\<close>; with the draws of the run above the three
  people are paired with no failed attempt.\<close>

theorem AttemptToGenPairings_gives_up_witness:
  "assign_loop [] 2 (draws []) (build_people [[''Ann''], [''Bob'']]) (build_people [[''Ann''], [''Bob'']]) {} 3 6 =
     (Inr GaveUp, 6) \<and>
   fst (AttemptToGenPairings [[''Ann''], [''Bob'']] [] 2 (draws []) 0) = Inr None \<and>
   assign_loop [] 1000 (draws [0, 1, 0, 1, 0, 0]) (build_people [[''Ann''], [''Bob''], [''Cy'']])
      (build_people [[''Ann''], [''Bob''], [''Cy'']]) {} 0 0 =
     (Inr (Finished [] {((''Ann'', 0), (''Bob'', 1)), ((''Bob'', 1), (''Cy'', 2)), ((''Cy'', 2), (''Ann'', 0))} 0), 6) \<and>
   (0 :: int) \<le> 1000 \<and>
   card {((''Ann'', 0 :: int), (''Bob'', 1 :: int)), ((''Bob'', 1), (''Cy'', 2)), ((''Cy'', 2), (''Ann'', 0))} =
     length (build_people [[''Ann''], [''Bob''], [''Cy'']])"
proof -
  let ?two = "build_people [[''Ann''], [''Bob'']]" and ?three = "build_people [[''Ann''], [''Bob''], [''Cy'']]"
  let ?P = "{((''Ann'', 0 :: int), (''Bob'', 1 :: int)), ((''Bob'', 1), (''Cy'', 2)), ((''Cy'', 2), (''Ann'', 0))}"
  have ne: "?two \<noteq> [] \<and> (2 :: int) < 3" "?three \<noteq> []"
    by (simp_all add: build_people_def)
  have none: "fst (AttemptToGenPairings [[''Ann''], [''Bob'']] [] 2 (draws []) 0) = Inr None"
    by code_simp
  have fin: "assign_loop [] 1000 (draws [0, 1, 0, 1, 0, 0]) ?three ?three {} 0 0 = (Inr (Finished [] ?P 0), 6)"
    by code_simp
  have run: "fst (AttemptToGenPairings [[''Ann''], [''Bob''], [''Cy'']] [] 1000 (draws [0, 1, 0, 1, 0, 0]) 0) =
     Inr (Some ?P)"
    by code_simp
  from AttemptToGenPairings_gives_up[of ?two 2 3 "[]" "draws []" ?two "{}" 6, THEN conjunct1, rule_format, OF ne(1)]
  have a: "assign_loop [] 2 (draws []) ?two ?two {} 3 6 = (Inr GaveUp, 6)" .
  from AttemptToGenPairings_gives_up[of ?three 1000 0 "[]" "draws [0, 1, 0, 1, 0, 0]" ?three "{}" 0 "[]" ?P 0 6
      "[[''Ann''], [''Bob''], [''Cy'']]" ?P]
    ne(2) fin run
  have b: "(0 :: int) \<le> 1000 \<and> card ?P = length ?three" by blast
  from a none fin b show ?thesis by (intro conjI) simp_all
qed

section \<open>The claims about GenPairings\<close>

text \<open>
  Claim C3, as amended. GenPairings can return a set \<open>M\<close>, for some sequence of random
  draws, exactly when \<open>M\<close> is a MatchSet for the groups and the history: every MatchSet is
  returned for some draws, and whatever GenPairings returns is a MatchSet (and never an
  exception).
\<close>

theorem GenPairings_returns_iff_feasible:
  "(valid_matchset groups lastRun M \<longrightarrow> (\<exists>rnd. GenPairings groups lastRun rnd = Some (Inr M))) \<and>
   (GenPairings groups lastRun rnd = Some res \<longrightarrow> (\<exists>P. res = Inr P \<and> valid_matchset groups lastRun P))"
proof (intro conjI impI)
  assume "valid_matchset groups lastRun M"
  then obtain rnd' where "fst (AttemptToGenPairings groups lastRun 1000 rnd' 0) = Inr (Some M)"
    using AttemptToGenPairings_reaches[of groups lastRun M 1000] by auto
  then have "GenPairings groups lastRun rnd' = Some (Inr M)"
    unfolding GenPairings_def by (rule GenPairings_loop_first)
  then show "\<exists>rnd. GenPairings groups lastRun rnd = Some (Inr M)" by blast
next
  assume "GenPairings groups lastRun rnd = Some res"
  then show "\<exists>P. res = Inr P \<and> valid_matchset groups lastRun P"
    by (rule GenPairings_Some)
qed

theorem GenPairings_returns_iff_feasible_witness:
  "GenPairings [[''Ann''], [''Bob''], [''Cy'']] [] (draws [0, 1, 0, 1, 0, 0]) =
     Some (Inr {((''Ann'', 0), (''Bob'', 1)), ((''Bob'', 1), (''Cy'', 2)), ((''Cy'', 2), (''Ann'', 0))}) \<and>
   valid_matchset [[''Ann''], [''Bob''], [''Cy'']] []
     {((''Ann'', 0), (''Bob'', 1)), ((''Bob'', 1), (''Cy'', 2)), ((''Cy'', 2), (''Ann'', 0))} \<and>
   (\<exists>rnd. GenPairings [[''Ann''], [''Bob''], [''Cy'']] [] rnd =
     Some (Inr {((''Ann'', 0), (''Bob'', 1)), ((''Bob'', 1), (''Cy'', 2)), ((''Cy'', 2), (''Ann'', 0))}))"
proof -
  have run: "GenPairings [[''Ann''], [''Bob''], [''Cy'']] [] (draws [0, 1, 0, 1, 0, 0]) =
     Some (Inr {((''Ann'', 0), (''Bob'', 1)), ((''Bob'', 1), (''Cy'', 2)), ((''Cy'', 2), (''Ann'', 0))})"
    by code_simp
  from GenPairings_returns_iff_feasible[THEN conjunct2, rule_format, OF run]
  have v: "valid_matchset [[''Ann''], [''Bob''], [''Cy'']] []
     {((''Ann'', 0), (''Bob'', 1)), ((''Bob'', 1), (''Cy'', 2)), ((''Cy'', 2), (''Ann'', 0))}"
    by (simp only: sum.inject ex_simps simp_thms)
  from GenPairings_returns_iff_feasible[THEN conjunct1, rule_format, OF v] run v
  show ?thesis by (intro conjI)
qed

text \<open>The claim as stated fails: two groups, of three people and of one, are four people
  with no empty group, and with an empty history GenPairings returns for no sequence of
  random draws.\<close>

theorem GenPairings_counterexample:
  "2 \<le> length [[''Ann'', ''Bob'', ''Cy''], [''Dee'']] \<and>
   list_all (\<lambda>names. 1 \<le> length names) [[''Ann'', ''Bob'', ''Cy''], [''Dee'']] \<and>
   4 \<le> length (build_people [[''Ann'', ''Bob'', ''Cy''], [''Dee'']]) \<and>
   (\<forall>rnd. GenPairings [[''Ann'', ''Bob'', ''Cy''], [''Dee'']] [] rnd = None)"
proof -
  have "fst (AttemptToGenPairings [[''Ann'', ''Bob'', ''Cy''], [''Dee'']] [] 1000 rnd k) = Inr None" for rnd k
    using AttemptToGenPairings_cases[of "[[''Ann'', ''Bob'', ''Cy''], [''Dee'']]" "[]" 1000 rnd k]
      three_and_one_infeasible[of "''Ann''" "''Bob''" "''Cy''" "''Dee''" "[]"]
    by auto
  then have "GenPairings [[''Ann'', ''Bob'', ''Cy''], [''Dee'']] [] rnd = None" for rnd
    unfolding GenPairings_def by (rule GenPairings_loop_never)
  then show ?thesis by (simp add: people_three_one)
qed

section \<open>The claims about PairingToString\<close>

text \<open>
  Claim C8, as amended. The key of a pairing is the giver's group index in decimal, the
  giver's name lowercased, without its leading and trailing whitespace and without its double
  quotes, a hyphen, and the same for the getter. Here \<open>giverCore\<close> and \<open>getterCore\<close> are
  the names without their leading and trailing whitespace.
\<close>

theorem PairingToString_format:
  assumes "trimmed_of giverName giverCore" and "trimmed_of getterName getterCore"
  shows "PairingToString ((giverName, giverGroup), (getterName, getterGroup)) =
         string_of_int giverGroup @ remove_quotes (py_lower giverCore) @ ''-'' @
         string_of_int getterGroup @ remove_quotes (py_lower getterCore)"
  using assms by (simp add: key_name_trimmed)

text \<open>A name in group 0 that starts with a no-break space and a space, holds a double
  quote and the capital 201 (E acute), and ends with two spaces; the name \<open>BOB\<close> in
  group 12.\<close>

theorem PairingToString_format_witness:
  "trimmed_of ([CHR 0xA0] @ '' Al'' @ [dquote] @ ''Ic'' @ [CHR 0xC9] @ ''  '') (''Al'' @ [dquote] @ ''Ic'' @ [CHR 0xC9]) \<and>
   trimmed_of ''BOB'' ''BOB'' \<and>
   PairingToString (([CHR 0xA0] @ '' Al'' @ [dquote] @ ''Ic'' @ [CHR 0xC9] @ ''  '', 0), (''BOB'', 12)) =
     ''0alic'' @ [CHR 0xE9] @ ''-12bob''"
proof -
  have s1: "py_strip ([CHR 0xA0] @ '' Al'' @ [dquote] @ ''Ic'' @ [CHR 0xC9] @ ''  '') =
            ''Al'' @ [dquote] @ ''Ic'' @ [CHR 0xC9]"
    by code_simp
  have s2: "py_strip ''BOB'' = ''BOB''"
    by code_simp
  have t1: "trimmed_of ([CHR 0xA0] @ '' Al'' @ [dquote] @ ''Ic'' @ [CHR 0xC9] @ ''  '')
              (''Al'' @ [dquote] @ ''Ic'' @ [CHR 0xC9])"
    using trimmed_of_strip[of "[CHR 0xA0] @ '' Al'' @ [dquote] @ ''Ic'' @ [CHR 0xC9] @ ''  ''"]
    by (simp only: s1)
  have t2: "trimmed_of ''BOB'' ''BOB''"
    using trimmed_of_strip[of "''BOB''"] by (simp only: s2)
  have e: "string_of_int 0 @ remove_quotes (py_lower (''Al'' @ [dquote] @ ''Ic'' @ [CHR 0xC9])) @ ''-'' @
         string_of_int 12 @ remove_quotes (py_lower ''BOB'') = ''0alic'' @ [CHR 0xE9] @ ''-12bob''"
    by code_simp
  from PairingToString_format[OF t1 t2, of 0 12] e t1 t2 show ?thesis by simp
qed

text \<open>The claim as stated, the name lowercased and without quotes only, fails for a name
  with a leading space, which the key does not keep.\<close>

theorem PairingToString_format_counterexample:
  "PairingToString (('' Al'', 0), (''Bob'', 1)) = ''0al-1bob'' \<and>
   string_of_int 0 @ remove_quotes (py_lower '' Al'') @ ''-'' @
     string_of_int 1 @ remove_quotes (py_lower ''Bob'') = ''0 al-1bob'' \<and>
   PairingToString (('' Al'', 0), (''Bob'', 1)) \<noteq>
     string_of_int 0 @ remove_quotes (py_lower '' Al'') @ ''-'' @
     string_of_int 1 @ remove_quotes (py_lower ''Bob'')"
  by code_simp

text \<open>
  Claim C10, as amended. Two pairings with the same group indices have the same key when
  the names, taken without their leading and trailing whitespace, differ only by letter case
  and by double quotes. So a name with whitespace around it collides with the trimmed name.
  Whitespace that only the removal of a quote would bring to the edge is not trimmed: the
  quotes go after the trimming.
\<close>

theorem PairingToString_variants:
  assumes "trimmed_of giverName1 giverCore1" and "trimmed_of giverName2 giverCore2"
    and "py_lower (remove_quotes giverCore1) = py_lower (remove_quotes giverCore2)"
    and "trimmed_of getterName1 getterCore1" and "trimmed_of getterName2 getterCore2"
    and "py_lower (remove_quotes getterCore1) = py_lower (remove_quotes getterCore2)"
  shows "PairingToString ((giverName1, giverGroup), (getterName1, getterGroup)) =
         PairingToString ((giverName2, giverGroup), (getterName2, getterGroup))"
  using assms by (simp add: key_name_trimmed remove_quotes_lower)

theorem PairingToString_variants_witness:
  "PairingToString (([CHR 0xA0] @ '' Alice '', 0), ([dquote] @ ''Bob'' @ [dquote], 1)) =
   PairingToString ((''aLICE'', 0), (''bob'', 1))"
proof -
  have s: "py_strip ([CHR 0xA0] @ '' Alice '') = ''Alice''" "py_strip ''aLICE'' = ''aLICE''"
    "py_strip ([dquote] @ ''Bob'' @ [dquote]) = [dquote] @ ''Bob'' @ [dquote]" "py_strip ''bob'' = ''bob''"
    by code_simp+
  have t: "trimmed_of ([CHR 0xA0] @ '' Alice '') ''Alice''" "trimmed_of ''aLICE'' ''aLICE''"
    "trimmed_of ([dquote] @ ''Bob'' @ [dquote]) ([dquote] @ ''Bob'' @ [dquote])" "trimmed_of ''bob'' ''bob''"
    using trimmed_of_strip[of "[CHR 0xA0] @ '' Alice ''"] trimmed_of_strip[of "''aLICE''"]
      trimmed_of_strip[of "[dquote] @ ''Bob'' @ [dquote]"] trimmed_of_strip[of "''bob''"]
    by (simp_all only: s)
  have e: "py_lower (remove_quotes ''Alice'') = py_lower (remove_quotes ''aLICE'')"
    "py_lower (remove_quotes ([dquote] @ ''Bob'' @ [dquote])) = py_lower (remove_quotes ''bob'')"
    by code_simp+
  show ?thesis
    by (rule PairingToString_variants[OF t(1) t(2) e(1) t(3) t(4) e(2)])
qed

text \<open>The claim as stated fails for two names that differ by a double quote only, when the
  quote stands before a leading space: the space is kept in one key and trimmed in the
  other.\<close>

theorem PairingToString_variants_counterexample:
  "remove_quotes ([dquote] @ '' A'') = remove_quotes '' A'' \<and>
   PairingToString (([dquote] @ '' A'', 0), (''B'', 1)) = ''0 a-1b'' \<and>
   PairingToString (('' A'', 0), (''B'', 1)) = ''0a-1b'' \<and>
   PairingToString (([dquote] @ '' A'', 0), (''B'', 1)) \<noteq> PairingToString (('' A'', 0), (''B'', 1))"
  by code_simp

section \<open>The claims about FormatPairings and LoadGroups\<close>

text \<open>
  Claim C7, as amended. LoadGroups reads from the lastRun string of FormatPairings the keys
  \<open>PairingToString p\<close> of the pairings \<open>p\<close> of the set, one for each pairing in their
  sorted order, if and only if no key holds \<open>::\<close>, no key but the last ends in a colon,
  and the last key does not end in whitespace; the keys read are then exactly the set of
  the keys of the pairings.
\<close>

theorem FormatPairings_LoadGroups_roundtrip:
  assumes "finite P"
  shows "(LoadGroups \<lparr>cfg_groups = gs, cfg_lastRun = Some (snd (FormatPairings groups P))\<rparr> =
            Inr (gs, map PairingToString (sorted_list_of_set P))) =
         keys_round_trip (map PairingToString (sorted_list_of_set P)) \<and>
         set (map PairingToString (sorted_list_of_set P)) = PairingToString ` P"
proof -
  have "\<forall>key \<in> set (map PairingToString (sorted_list_of_set P)). key \<noteq> [] \<and> \<not> is_space (hd key)"
    using PairingToString_head by auto
  from LoadGroups_join_iff[OF this, of gs] assms show ?thesis
    by (simp add: FormatPairings_spec)
qed

text \<open>A name with one colon, and a key that ends in a space but is not the last: both are
  read back as written.\<close>

theorem FormatPairings_LoadGroups_roundtrip_witness:
  "finite {((''A:b'', 0 :: int), (''x '' @ [dquote], 1 :: int)), ((''x '' @ [dquote], 1), (''A:b'', 0))} \<and>
   keys_round_trip [''0a:b-1x '', ''1x -0a:b''] \<and>
   LoadGroups \<lparr>cfg_groups = [[''A:b''], [''x '' @ [dquote]]],
      cfg_lastRun = Some (snd (FormatPairings [[''A:b''], [''x '' @ [dquote]]]
        {((''A:b'', 0), (''x '' @ [dquote], 1)), ((''x '' @ [dquote], 1), (''A:b'', 0))}))\<rparr> =
     Inr ([[''A:b''], [''x '' @ [dquote]]], [''0a:b-1x '', ''1x -0a:b'']) \<and>
   set [''0a:b-1x '', ''1x -0a:b''] =
     PairingToString ` {((''A:b'', 0), (''x '' @ [dquote], 1)), ((''x '' @ [dquote], 1), (''A:b'', 0))}"
proof -
  let ?P = "{((''A:b'', 0 :: int), (''x '' @ [dquote], 1 :: int)), ((''x '' @ [dquote], 1), (''A:b'', 0))}"
  have fin: "finite ?P" by simp
  have sorted_keys: "map PairingToString (sorted_list_of_set ?P) = [''0a:b-1x '', ''1x -0a:b'']"
    by code_simp
  have ok: "keys_round_trip [''0a:b-1x '', ''1x -0a:b'']"
    by code_simp
  from FormatPairings_LoadGroups_roundtrip[OF fin, of "[[''A:b''], [''x '' @ [dquote]]]" "[[''A:b''], [''x '' @ [dquote]]]"]
  show ?thesis unfolding sorted_keys using fin ok by blast
qed

text \<open>The claim as stated, for every set of pairings, fails for a name with two colons in
  a row: the one key \<open>0jo::ann-1cy\<close> is read back as the two strings \<open>0jo\<close> and
  \<open>ann-1cy\<close>.\<close>

theorem FormatPairings_LoadGroups_roundtrip_counterexample:
  "PairingToString ((''Jo::Ann'', 0), (''Cy'', 1)) = ''0jo::ann-1cy'' \<and>
   LoadGroups \<lparr>cfg_groups = [[''Jo::Ann''], [''Cy'']],
      cfg_lastRun = Some (snd (FormatPairings [[''Jo::Ann''], [''Cy'']] {((''Jo::Ann'', 0), (''Cy'', 1))}))\<rparr> =
     Inr ([[''Jo::Ann''], [''Cy'']], [''0jo'', ''ann-1cy'']) \<and>
   set [''0jo'', ''ann-1cy''] \<noteq> PairingToString ` {((''Jo::Ann'', 0), (''Cy'', 1))}"
  by code_simp




end
